theory Spec2Isabelle
  imports Complex_Main
begin


section \<open>Boolean vectors and matrices (the numpy arrays of the source)\<close>

text \<open>
  A numpy array of dtype bool is a \<open>bool list\<close>, a two-dimensional one a list of rows.
  \<open>^\<close>, \<open>&\<close>, \<open>|\<close> and \<open>~\<close> of numpy work elementwise; \<open>m[:, q]\<close> is the column \<open>q\<close>.
\<close>

definition xor_vec :: "bool list \<Rightarrow> bool list \<Rightarrow> bool list" where
  "xor_vec a b = map2 (\<lambda>x y. x \<noteq> y) a b"

definition and_vec :: "bool list \<Rightarrow> bool list \<Rightarrow> bool list" where
  "and_vec a b = map2 (\<lambda>x y. x \<and> y) a b"

definition or_vec :: "bool list \<Rightarrow> bool list \<Rightarrow> bool list" where
  "or_vec a b = map2 (\<lambda>x y. x \<or> y) a b"

definition not_vec :: "bool list \<Rightarrow> bool list" where
  "not_vec a = map (\<lambda>x. \<not> x) a"

definition col :: "'a list list \<Rightarrow> nat \<Rightarrow> 'a list" where
  "col m q = map (\<lambda>row. row ! q) m"

definition set_col :: "'a list list \<Rightarrow> nat \<Rightarrow> 'a list \<Rightarrow> 'a list list" where
  "set_col m q c = map2 (\<lambda>row b. row[q := b]) m c"

text \<open>\<open>sum(a)\<close> of a boolean array: the number of its true entries.\<close>

definition count_true :: "bool list \<Rightarrow> nat" where
  "count_true a = length (filter (\<lambda>b. b) a)"

text \<open>\<open>np.where(a)[0]\<close>: the indices of the true entries, ascending.\<close>

definition where_true :: "bool list \<Rightarrow> nat list" where
  "where_true a = filter (\<lambda>i. a ! i) [0..<length a]"

datatype error = IndexError | KeyError | UnboundLocalError | ValueError string

text \<open>Sequencing of fallible steps: the first raise ends the computation.\<close>

definition bind :: "error + 'a \<Rightarrow> ('a \<Rightarrow> error + 'b) \<Rightarrow> error + 'b" where
  "bind m f = (case m of Inl e \<Rightarrow> Inl e | Inr a \<Rightarrow> f a)"

text \<open>
  The ambient generator \<open>np.random\<close>: the sequence of bits its future calls of
  \<open>randint(2)\<close> return. A draw takes the first and leaves the rest.
\<close>

type_synonym rng = "nat \<Rightarrow> bool"

definition randint2 :: "rng \<Rightarrow> bool \<times> rng" where
  "randint2 g = (g 0, \<lambda>i. g (Suc i))"

section \<open>The binary tableau (clifford\_tableau.py)\<close>

text \<open>
  \<open>CliffordTableau\<close>: \<open>n\<close> qubits, \<open>xs\<close> and \<open>zs\<close> of shape \<open>(2n+1, n)\<close>, \<open>rs\<close> of length
  \<open>2n+1\<close>. The fields carry the prefix \<open>t_\<close>.
\<close>

record tableau =
  t_n :: nat
  t_xs :: "bool list list"
  t_zs :: "bool list list"
  t_rs :: "bool list"

text \<open>The generator \<open>bits\<close> of \<open>__init__\<close>: the binary digits, least significant first.\<close>

fun bits :: "nat \<Rightarrow> bool list" where
  "bits s = (if s > 0 then odd s # bits (s div 2) else [])"

declare bits.simps [simp del]

text \<open>
  Python's index into a sequence of length \<open>len\<close>: a negative index counts from the
  end, anything outside \<open>-len .. len-1\<close> raises.
\<close>

definition py_index :: "nat \<Rightarrow> int \<Rightarrow> error + nat" where
  "py_index len i =
     (if 0 \<le> i \<and> i < int len then Inr (nat i)
      else if - int len \<le> i \<and> i < 0 then Inr (nat (int len + i))
      else Inl IndexError)"

text \<open>The loop \<open>for (i, val) in enumerate(bits(initial_state)): rs[2n - i - 1] = bool(val)\<close>.\<close>

fun init_rs :: "nat \<Rightarrow> (nat \<times> bool) list \<Rightarrow> bool list \<Rightarrow> error + bool list" where
  "init_rs n [] r = Inr r"
| "init_rs n ((i, val) # rest) r =
     bind (py_index (length r) (2 * int n - int i - 1)) (\<lambda>j. init_rs n rest (r[j := val]))"

definition eye :: "nat \<Rightarrow> bool list list" where
  "eye n = map (\<lambda>i. map (\<lambda>j. i = j) [0..<n]) [0..<n]"

definition zeros :: "nat \<Rightarrow> nat \<Rightarrow> bool list list" where
  "zeros m n = replicate m (replicate n False)"

definition tableau_init :: "nat \<Rightarrow> nat \<Rightarrow> error + tableau" where
  "tableau_init num_qubits initial_state =
     bind (init_rs num_qubits (enumerate 0 (bits initial_state))
             (replicate (2 * num_qubits + 1) False))
       (\<lambda>r. Inr \<lparr> t_n = num_qubits,
                  t_xs = eye num_qubits @ zeros (num_qubits + 1) num_qubits,
                  t_zs = zeros num_qubits num_qubits @ eye num_qubits @ zeros 1 num_qubits,
                  t_rs = r \<rparr>)"

text \<open>
  The gates. Each reads column \<open>q\<close> of \<open>xs\<close> or \<open>zs\<close> first, which numpy refuses with an
  IndexError when \<open>q\<close> is not below \<open>n\<close>; nothing has been written at that point. Qubit
  indices are natural numbers, as the values of the driver's qubit map are.
\<close>

definition tab_X :: "nat \<Rightarrow> tableau \<Rightarrow> error + tableau" where
  "tab_X q T = (if q < t_n T then Inr (T\<lparr> t_rs := xor_vec (t_rs T) (col (t_zs T) q) \<rparr>)
                else Inl IndexError)"

definition tab_Y :: "nat \<Rightarrow> tableau \<Rightarrow> error + tableau" where
  "tab_Y q T = (if q < t_n T
                then Inr (T\<lparr> t_rs := xor_vec (t_rs T) (or_vec (col (t_xs T) q) (col (t_zs T) q)) \<rparr>)
                else Inl IndexError)"

definition tab_Z :: "nat \<Rightarrow> tableau \<Rightarrow> error + tableau" where
  "tab_Z q T = (if q < t_n T then Inr (T\<lparr> t_rs := xor_vec (t_rs T) (col (t_xs T) q) \<rparr>)
                else Inl IndexError)"

definition tab_S :: "nat \<Rightarrow> tableau \<Rightarrow> error + tableau" where
  "tab_S q T = (if q < t_n T
                then Inr (T\<lparr> t_rs := xor_vec (t_rs T) (and_vec (col (t_xs T) q) (col (t_zs T) q)),
                            t_zs := set_col (t_zs T) q (xor_vec (col (t_zs T) q) (col (t_xs T) q)) \<rparr>)
                else Inl IndexError)"

definition tab_H :: "nat \<Rightarrow> tableau \<Rightarrow> error + tableau" where
  "tab_H q T = (if q < t_n T
                then (let xs' = set_col (t_xs T) q (col (t_zs T) q);
                          zs' = set_col (t_zs T) q (col (t_xs T) q)
                      in Inr (T\<lparr> t_xs := xs', t_zs := zs',
                                  t_rs := xor_vec (t_rs T) (and_vec (col xs' q) (col zs' q)) \<rparr>))
                else Inl IndexError)"

definition tab_CNOT :: "nat \<Rightarrow> nat \<Rightarrow> tableau \<Rightarrow> error + tableau" where
  "tab_CNOT q1 q2 T =
     (if q1 < t_n T \<and> q2 < t_n T
      then (let rs' = xor_vec (t_rs T)
                        (and_vec (and_vec (col (t_xs T) q1) (col (t_zs T) q2))
                                 (not_vec (xor_vec (col (t_xs T) q2) (col (t_zs T) q1))));
                xs' = set_col (t_xs T) q2 (xor_vec (col (t_xs T) q2) (col (t_xs T) q1));
                zs' = set_col (t_zs T) q1 (xor_vec (col (t_zs T) q1) (col (t_zs T) q2))
            in Inr (T\<lparr> t_rs := rs', t_xs := xs', t_zs := zs' \<rparr>))
      else Inl IndexError)"

definition tab_CZ :: "nat \<Rightarrow> nat \<Rightarrow> tableau \<Rightarrow> error + tableau" where
  "tab_CZ q r T = bind (tab_H r T) (\<lambda>T1. bind (tab_CNOT q r T1) (\<lambda>T2. tab_H r T2))"

text \<open>
  \<open>_rowsum(q1, q2)\<close>: row \<open>q1\<close> becomes the product of rows \<open>q1\<close> and \<open>q2\<close>. The phase
  function \<open>g\<close> of the source (here \<open>rowsum_g\<close>) is called with the bits of row \<open>q2\<close> first.
\<close>

definition rowsum_g :: "bool \<Rightarrow> bool \<Rightarrow> bool \<Rightarrow> bool \<Rightarrow> int" where
  "rowsum_g x1 z1 x2 z2 =
     (if \<not> x1 \<and> \<not> z1 then 0
      else if x1 \<and> z1 then of_bool z2 - of_bool x2
      else if x1 \<and> \<not> z1 then of_bool z2 * (2 * of_bool x2 - 1)
      else of_bool x2 * (1 - 2 * of_bool z2))"

definition rowsum :: "nat \<Rightarrow> nat \<Rightarrow> tableau \<Rightarrow> tableau" where
  "rowsum q1 q2 T =
     (let r0 = 2 * of_bool (t_rs T ! q1) + 2 * of_bool (t_rs T ! q2);
          r = fold (\<lambda>j r. r + rowsum_g (t_xs T ! q2 ! j) (t_zs T ! q2 ! j)
                                 (t_xs T ! q1 ! j) (t_zs T ! q1 ! j)) [0..<t_n T] r0;
          r' = r mod 4
      in T\<lparr> t_rs := (t_rs T)[q1 := (r' \<noteq> 0)],
             t_xs := (t_xs T)[q1 := xor_vec (t_xs T ! q1) (t_xs T ! q2)],
             t_zs := (t_zs T)[q1 := xor_vec (t_zs T ! q1) (t_zs T ! q2)] \<rparr>)"

text \<open>
  \<open>_row_to_dense_pauli\<close>, \<open>stabilizers\<close>, \<open>destabilizers\<close>: a dense Pauli string is its
  coefficient (\<open>-1\<close> when the sign bit is set) and one letter per qubit.
\<close>

datatype pauli = PI | PX | PY | PZ

type_synonym dense_pauli_string = "int \<times> pauli list"

definition row_to_dense_pauli :: "tableau \<Rightarrow> nat \<Rightarrow> dense_pauli_string" where
  "row_to_dense_pauli T i =
     (if t_rs T ! i then - 1 else 1,
      map (\<lambda>k. if t_xs T ! i ! k \<and> \<not> t_zs T ! i ! k then PX
                else if \<not> t_xs T ! i ! k \<and> t_zs T ! i ! k then PZ
                else if t_xs T ! i ! k \<and> t_zs T ! i ! k then PY
                else PI) [0..<t_n T])"

definition stabilizers :: "tableau \<Rightarrow> dense_pauli_string list" where
  "stabilizers T = map (row_to_dense_pauli T) [t_n T..<2 * t_n T]"

definition destabilizers :: "tableau \<Rightarrow> dense_pauli_string list" where
  "destabilizers T = map (row_to_dense_pauli T) [0..<t_n T]"

text \<open>
  \<open>_measure(q)\<close>. The scan of the stabilizer rows stops at the first row \<open>p\<close> whose x-bit
  at \<open>q\<close> is set. The first read \<open>xs[n, q]\<close> raises when \<open>q\<close> is out of range; with no
  qubit at all there is no read. The result is the outcome, the tableau and the
  generator after the call.
\<close>

definition find_p :: "tableau \<Rightarrow> nat \<Rightarrow> nat option" where
  "find_p T q = find (\<lambda>i. t_xs T ! i ! q) [t_n T..<2 * t_n T]"

definition measure_commuting :: "nat \<Rightarrow> tableau \<Rightarrow> tableau" where
  "measure_commuting q T =
     (let n = t_n T;
          T1 = T\<lparr> t_xs := (t_xs T)[2 * n := replicate n False],
                  t_zs := (t_zs T)[2 * n := replicate n False],
                  t_rs := (t_rs T)[2 * n := False] \<rparr>
      in fold (\<lambda>i U. if t_xs U ! i ! q then rowsum (2 * n) (n + i) U else U) [0..<n] T1)"

definition measure_anticommuting :: "nat \<Rightarrow> nat \<Rightarrow> bool \<Rightarrow> tableau \<Rightarrow> tableau" where
  "measure_anticommuting q p r T =
     (let n = t_n T;
          T1 = fold (\<lambda>i U. if i \<noteq> p \<and> t_xs U ! i ! q then rowsum i p U else U) [0..<2 * n] T;
          T2 = T1\<lparr> t_xs := (t_xs T1)[p - n := t_xs T1 ! p],
                   t_zs := (t_zs T1)[p - n := t_zs T1 ! p],
                   t_rs := (t_rs T1)[p - n := t_rs T1 ! p] \<rparr>;
          T3 = T2\<lparr> t_xs := (t_xs T2)[p := replicate n False],
                   t_zs := (t_zs T2)[p := replicate n False] \<rparr>;
          T4 = T3\<lparr> t_zs := (t_zs T3)[p := (t_zs T3 ! p)[q := True]] \<rparr>
      in T4\<lparr> t_rs := (t_rs T4)[p := r] \<rparr>)"

definition tab_measure :: "nat \<Rightarrow> tableau \<Rightarrow> rng \<Rightarrow> error + (nat \<times> tableau \<times> rng)" where
  "tab_measure q T gen =
     (if 0 < t_n T \<and> t_n T \<le> q then Inl IndexError
      else case find_p T q of
             None \<Rightarrow> (let T' = measure_commuting q T
                       in Inr (of_bool (t_rs T' ! (2 * t_n T)), T', gen))
           | Some p \<Rightarrow> (let (r, gen') = randint2 gen;
                             T' = measure_anticommuting q p r T
                         in Inr (of_bool (t_rs T' ! p), T', gen')))"

section \<open>The CH-form state (stabilizer\_state\_ch\_form.py)\<close>

text \<open>
  \<open>StabilizerStateChForm\<close>: the matrices \<open>G\<close>, \<open>F\<close>, \<open>M\<close>, the integer vector \<open>gamma\<close>,
  the boolean vectors \<open>v\<close> and \<open>s\<close>, the scalar \<open>omega\<close>. The fields carry the prefix
  \<open>ch_\<close>. The floating-point scalar is a complex number here, with exact arithmetic.
\<close>

record ch_form =
  ch_n :: nat
  ch_G :: "bool list list"
  ch_F :: "bool list list"
  ch_M :: "bool list list"
  ch_gamma :: "int list"
  ch_v :: "bool list"
  ch_s :: "bool list"
  ch_omega :: complex

text \<open>
  The branches \<open>right=True\<close> of \<open>_S\<close>, \<open>_CZ\<close> and \<open>_CNOT\<close>, which \<open>_update_sum\<close> calls
  with indices taken from \<open>np.where\<close>.
\<close>

definition ch_S_right :: "nat \<Rightarrow> ch_form \<Rightarrow> ch_form" where
  "ch_S_right q C =
     C\<lparr> ch_M := set_col (ch_M C) q (xor_vec (col (ch_M C) q) (col (ch_F C) q)),
        ch_gamma := map2 (\<lambda>gm f. (gm - of_bool f) mod 4) (ch_gamma C) (col (ch_F C) q) \<rparr>"

definition ch_CZ_right :: "nat \<Rightarrow> nat \<Rightarrow> ch_form \<Rightarrow> ch_form" where
  "ch_CZ_right q r C =
     (let M1 = set_col (ch_M C) q (xor_vec (col (ch_M C) q) (col (ch_F C) r));
          M2 = set_col M1 r (xor_vec (col M1 r) (col (ch_F C) q))
      in C\<lparr> ch_M := M2,
             ch_gamma := map2 (\<lambda>gm (fq, fr). (gm + 2 * of_bool fq * of_bool fr) mod 4)
                           (ch_gamma C) (zip (col (ch_F C) q) (col (ch_F C) r)) \<rparr>)"

definition ch_CNOT_right :: "nat \<Rightarrow> nat \<Rightarrow> ch_form \<Rightarrow> ch_form" where
  "ch_CNOT_right q r C =
     C\<lparr> ch_G := set_col (ch_G C) q (xor_vec (col (ch_G C) q) (col (ch_G C) r)),
        ch_F := set_col (ch_F C) r (xor_vec (col (ch_F C) r) (col (ch_F C) q)),
        ch_M := set_col (ch_M C) q (xor_vec (col (ch_M C) q) (col (ch_M C) r)) \<rparr>"

text \<open>\<open>_H_decompose(v, y, z, delta)\<close>, with its precondition checked first.\<close>

definition H_decompose :: "bool \<Rightarrow> bool \<Rightarrow> bool \<Rightarrow> int \<Rightarrow> error + (complex \<times> bool \<times> bool \<times> bool)" where
  "H_decompose v y z delta =
     (if y = z then Inl (ValueError ''|y> is equal to |z>'')
      else if \<not> v then
        (let omega = \<i> ^ nat (delta * of_bool y);
             delta2 = ((if y then - 1 else 1) * delta) mod 4;
             c = (delta2 div 2 \<noteq> 0);
             a = (delta2 mod 2 \<noteq> 0);
             b = True
         in Inr (omega, a, b, c))
      else if delta mod 2 = 0 then
        (let a = False; b = False;
             c = (delta div 2 \<noteq> 0);
             omega = (- 1) ^ (if c \<and> y then 1 else 0 :: nat)
         in Inr (omega, a, b, c))
      else
        (let omega = complex_of_real (1 / sqrt 2) * (1 + \<i> ^ nat delta);
             b = True; a = True;
             c = (\<not> ((delta div 2 \<noteq> 0) \<noteq> y))
         in Inr (omega, a, b, c)))"

text \<open>
  \<open>_update_sum(t, u, delta, alpha)\<close>. The pivot \<open>q\<close> is bound in one of the two
  branches on \<open>set0\<close> and \<open>set1\<close>; with both empty the later read of \<open>q\<close> would fail.
\<close>

definition update_sum :: "bool list \<Rightarrow> bool list \<Rightarrow> int \<Rightarrow> int \<Rightarrow> ch_form \<Rightarrow> error + ch_form" where
  "update_sum t u delta alpha C =
     (if t = u then
        Inr (C\<lparr> ch_s := t,
                ch_omega := ch_omega C *
                  (complex_of_real (1 / sqrt 2) * (- 1) ^ nat alpha * (1 + \<i> ^ nat delta)) \<rparr>)
      else
        (let set0 = where_true (and_vec (not_vec (ch_v C)) (xor_vec t u));
             set1 = where_true (and_vec (ch_v C) (xor_vec t u));
             pivot =
               (if length set0 > 0 then
                  (let q = set0 ! 0;
                       C1 = fold (\<lambda>i D. if i \<noteq> q then ch_CNOT_right q i D else D) set0 C;
                       C2 = fold (\<lambda>i D. ch_CZ_right q i D) set1 C1
                   in Inr (q, C2))
                else if length set1 > 0 then
                  (let q = set1 ! 0;
                       C1 = fold (\<lambda>i D. if i \<noteq> q then ch_CNOT_right i q D else D) set1 C
                   in Inr (q, C1))
                else Inl UnboundLocalError)
         in bind pivot (\<lambda>(q, C3).
              (let e = (replicate (ch_n C3) False)[q := True];
                   (y, z) = (if t ! q then (xor_vec u e, u) else (t, xor_vec t e))
               in bind (H_decompose (ch_v C3 ! q) (y ! q) (z ! q) delta) (\<lambda>(omega, a, b, c).
                    (let C4 = C3\<lparr> ch_s := y[q := c],
                                  ch_omega := ch_omega C3 * ((- 1) ^ nat alpha * omega) \<rparr>;
                         C5 = (if a then ch_S_right q C4 else C4)
                     in Inr (C5\<lparr> ch_v := (ch_v C5)[q := (ch_v C5 ! q \<noteq> (b \<noteq> ch_v C5 ! q))] \<rparr>)))))))"

text \<open>
  The gates applied from the left. Each reads row or entry \<open>q\<close> first and so raises an
  IndexError for an index that is not below \<open>n\<close>.
\<close>

definition ch_S :: "nat \<Rightarrow> ch_form \<Rightarrow> error + ch_form" where
  "ch_S q C =
     (if q < ch_n C
      then Inr (C\<lparr> ch_M := (ch_M C)[q := xor_vec (ch_M C ! q) (ch_G C ! q)],
                   ch_gamma := (ch_gamma C)[q := (ch_gamma C ! q - 1) mod 4] \<rparr>)
      else Inl IndexError)"

definition ch_Z :: "nat \<Rightarrow> ch_form \<Rightarrow> error + ch_form" where
  "ch_Z q C = bind (ch_S q C) (ch_S q)"

definition ch_CZ :: "nat \<Rightarrow> nat \<Rightarrow> ch_form \<Rightarrow> error + ch_form" where
  "ch_CZ q r C =
     (if q < ch_n C \<and> r < ch_n C
      then (let M1 = (ch_M C)[q := xor_vec (ch_M C ! q) (ch_G C ! r)];
                M2 = M1[r := xor_vec (M1 ! r) (ch_G C ! q)]
            in Inr (C\<lparr> ch_M := M2 \<rparr>))
      else Inl IndexError)"

definition ch_CNOT :: "nat \<Rightarrow> nat \<Rightarrow> ch_form \<Rightarrow> error + ch_form" where
  "ch_CNOT q r C =
     (if q < ch_n C \<and> r < ch_n C
      then (let gm = (ch_gamma C)[q := (ch_gamma C ! q + ch_gamma C ! r +
                        2 * (int (count_true (and_vec (ch_M C ! q) (ch_F C ! r))) mod 2)) mod 4];
                G1 = (ch_G C)[r := xor_vec (ch_G C ! r) (ch_G C ! q)];
                F1 = (ch_F C)[q := xor_vec (ch_F C ! q) (ch_F C ! r)];
                M1 = (ch_M C)[q := xor_vec (ch_M C ! q) (ch_M C ! r)]
            in Inr (C\<lparr> ch_gamma := gm, ch_G := G1, ch_F := F1, ch_M := M1 \<rparr>))
      else Inl IndexError)"

definition ch_H :: "nat \<Rightarrow> ch_form \<Rightarrow> error + ch_form" where
  "ch_H p C =
     (if p < ch_n C
      then (let t = xor_vec (ch_s C) (and_vec (ch_G C ! p) (ch_v C));
                u = xor_vec (xor_vec (ch_s C) (and_vec (ch_F C ! p) (not_vec (ch_v C))))
                            (and_vec (ch_M C ! p) (ch_v C));
                alpha = int (count_true (and_vec (and_vec (ch_G C ! p) (not_vec (ch_v C))) (ch_s C))) mod 2;
                beta = (int (count_true (and_vec (and_vec (ch_M C ! p) (not_vec (ch_v C))) (ch_s C)))
                        + int (count_true (and_vec (and_vec (ch_F C ! p) (ch_v C)) (ch_M C ! p)))
                        + int (count_true (and_vec (and_vec (ch_F C ! p) (ch_v C)) (ch_s C)))) mod 2;
                delta = (ch_gamma C ! p + 2 * (alpha + beta)) mod 4
            in update_sum t u delta alpha C)
      else Inl IndexError)"

definition ch_X :: "nat \<Rightarrow> ch_form \<Rightarrow> error + ch_form" where
  "ch_X q C = bind (ch_H q C) (\<lambda>C1. bind (ch_Z q C1) (ch_H q))"

definition ch_Y :: "nat \<Rightarrow> ch_form \<Rightarrow> error + ch_form" where
  "ch_Y q C = bind (ch_Z q C) (\<lambda>C1. bind (ch_X q C1)
                (\<lambda>C2. Inr (C2\<lparr> ch_omega := ch_omega C2 * \<i> \<rparr>)))"

text \<open>
  \<open>__init__\<close>: the all-zero state, then \<open>_X(n - i - 1)\<close> for every set bit \<open>i\<close> of the
  initial state. A negative index addresses the arrays from their end.
\<close>

fun ch_init_loop :: "nat \<Rightarrow> (nat \<times> bool) list \<Rightarrow> ch_form \<Rightarrow> error + ch_form" where
  "ch_init_loop n [] C = Inr C"
| "ch_init_loop n ((i, val) # rest) C =
     (if val then bind (py_index n (int n - int i - 1))
                    (\<lambda>q. bind (ch_X q C) (ch_init_loop n rest))
      else ch_init_loop n rest C)"

definition ch_init :: "nat \<Rightarrow> nat \<Rightarrow> error + ch_form" where
  "ch_init num_qubits initial_state =
     ch_init_loop num_qubits (enumerate 0 (bits initial_state))
       \<lparr> ch_n = num_qubits, ch_G = eye num_qubits, ch_F = eye num_qubits,
         ch_M = zeros num_qubits num_qubits, ch_gamma = replicate num_qubits 0,
         ch_v = replicate num_qubits False, ch_s = replicate num_qubits False,
         ch_omega = 1 \<rparr>"

text \<open>
  Modelled from the spec: \<open>cirq.big_endian_int_to_bits(x, bit_count=n)\<close>, whose source is
  not part of the repository's files at hand: the index \<open>x\<close> "expanded big-endian to an
  n-bit vector", the most significant of the \<open>n\<close> low bits first.
\<close>

definition big_endian_int_to_bits :: "nat \<Rightarrow> nat \<Rightarrow> bool list" where
  "big_endian_int_to_bits x bit_count = rev (map (\<lambda>i. odd (x div 2 ^ i)) [0..<bit_count])"

text \<open>\<open>inner_product_of_state_and_x(x)\<close>: the amplitude of the basis state \<open>x\<close>.\<close>

definition inner_loop :: "ch_form \<Rightarrow> bool list \<Rightarrow> bool list \<times> int" where
  "inner_loop C y =
     fold (\<lambda>p (u, mu). if y ! p
                        then (let u' = xor_vec u (ch_F C ! p)
                              in (u', mu + 2 * (int (count_true (and_vec (ch_M C ! p) u')) mod 2)))
                        else (u, mu))
          [0..<ch_n C]
          (replicate (ch_n C) False,
           sum_list (map2 (\<lambda>yb gm. of_bool yb * gm) y (ch_gamma C)))"

definition inner_product_of_state_and_x :: "ch_form \<Rightarrow> nat \<Rightarrow> complex" where
  "inner_product_of_state_and_x C x =
     (let y = big_endian_int_to_bits x (ch_n C);
          (u, mu) = inner_loop C y
      in ch_omega C
         * complex_of_real (2 powr (- real (count_true (ch_v C)) / 2))
         * \<i> ^ nat mu
         * (- 1) ^ count_true (and_vec (and_vec (ch_v C) u) (ch_s C))
         * of_bool (list_all (\<lambda>b. b) (or_vec (ch_v C) (map2 (\<lambda>a b. a = b) u (ch_s C)))))"

definition to_state_vector :: "ch_form \<Rightarrow> complex list" where
  "to_state_vector C = map (inner_product_of_state_and_x C) [0..<2 ^ ch_n C]"

definition wave_function :: "ch_form \<Rightarrow> complex list" where
  "wave_function C = map (inner_product_of_state_and_x C) [0..<2 ^ ch_n C]"

text \<open>\<open>project_Z(q, z)\<close>, with the outcome \<open>z\<close> chosen by the caller.\<close>

definition project_Z :: "nat \<Rightarrow> nat \<Rightarrow> ch_form \<Rightarrow> error + ch_form" where
  "project_Z q z C =
     (if q < ch_n C
      then (let t = ch_s C;
                u = xor_vec (and_vec (ch_G C ! q) (ch_v C)) (ch_s C);
                delta = (2 * int (count_true (and_vec (and_vec (ch_G C ! q) (not_vec (ch_v C))) (ch_s C)))
                         + 2 * int z) mod 4;
                C1 = (if t = u then C\<lparr> ch_omega := ch_omega C / complex_of_real (sqrt 2) \<rparr> else C)
            in update_sum t u delta 0 C1)
      else Inl IndexError)"

section \<open>The simulator driver (clifford\_simulator.py)\<close>

text \<open>
  Modelled from the spec: the circuit abstraction the driver consumes, whose classes
  and protocols (\<open>protocols.has_unitary\<close>, \<open>protocols.is_measurement\<close>,
  \<open>protocols.measurement_key\<close>, \<open>str(op.gate)\<close>) lie outside the files at hand. Each
  operation exposes its gate identity, "discriminable against the fixed set
  {X,Y,Z,H,S,CNOT,CZ} and is a measurement", the qubits it acts on and, for a
  measurement, a string key. \<open>Unitary name\<close> is any other gate that has a unitary,
  \<open>Channel name\<close> any operation with neither a unitary nor a measurement key.
  A qubit identity is a natural number.
\<close>

datatype gate =
    GateX | GateY | GateZ | GateH | GateS | GateCNOT | GateCZ
  | Unitary string | Measure string | Channel string

record operation =
  op_gate :: gate
  op_qubits :: "nat list"

fun has_unitary :: "operation \<Rightarrow> bool" where
  "has_unitary op = (case op_gate op of Measure k \<Rightarrow> False | Channel nm \<Rightarrow> False | _ \<Rightarrow> True)"

fun is_measurement :: "operation \<Rightarrow> bool" where
  "is_measurement op = (case op_gate op of Measure k \<Rightarrow> True | _ \<Rightarrow> False)"

fun measurement_key :: "operation \<Rightarrow> string" where
  "measurement_key op = (case op_gate op of Measure k \<Rightarrow> k | _ \<Rightarrow> [])"

fun gate_str :: "gate \<Rightarrow> string" where
  "gate_str GateX = ''X''"
| "gate_str GateY = ''Y''"
| "gate_str GateZ = ''Z''"
| "gate_str GateH = ''H''"
| "gate_str GateS = ''S''"
| "gate_str GateCNOT = ''CNOT''"
| "gate_str GateCZ = ''CZ''"
| "gate_str (Unitary nm) = nm"
| "gate_str (Measure k) = ''cirq.MeasurementGate''"
| "gate_str (Channel nm) = nm"

text \<open>\<open>CliffordState\<close>: the qubit map and the two representations.\<close>

record clifford_state =
  qubit_map :: "nat \<rightharpoonup> nat"
  st_n :: nat
  tableau :: tableau
  ch_form :: ch_form

definition clifford_state_init :: "(nat \<rightharpoonup> nat) \<Rightarrow> nat \<Rightarrow> nat \<Rightarrow> error + clifford_state" where
  "clifford_state_init qmap len initial_state =
     bind (tableau_init len initial_state) (\<lambda>T.
     bind (ch_init len initial_state) (\<lambda>C.
       Inr \<lparr> qubit_map = qmap, st_n = len, tableau = T, ch_form = C \<rparr>))"

text \<open>\<open>self.qubit_map[op.qubits[k]]\<close>.\<close>

definition qubit_index :: "clifford_state \<Rightarrow> nat list \<Rightarrow> nat \<Rightarrow> error + nat" where
  "qubit_index st qs k =
     (if k < length qs
      then (case qubit_map st (qs ! k) of None \<Rightarrow> Inl KeyError | Some i \<Rightarrow> Inr i)
      else Inl IndexError)"

definition apply1 ::
  "(nat \<Rightarrow> tableau \<Rightarrow> error + tableau) \<Rightarrow> (nat \<Rightarrow> ch_form \<Rightarrow> error + ch_form) \<Rightarrow>
   operation \<Rightarrow> clifford_state \<Rightarrow> error + clifford_state" where
  "apply1 tg cg op st =
     bind (qubit_index st (op_qubits op) 0) (\<lambda>q.
     bind (tg q (tableau st)) (\<lambda>T.
     bind (cg q (ch_form st)) (\<lambda>C. Inr (st\<lparr> tableau := T, ch_form := C \<rparr>))))"

definition apply2 ::
  "(nat \<Rightarrow> nat \<Rightarrow> tableau \<Rightarrow> error + tableau) \<Rightarrow> (nat \<Rightarrow> nat \<Rightarrow> ch_form \<Rightarrow> error + ch_form) \<Rightarrow>
   operation \<Rightarrow> clifford_state \<Rightarrow> error + clifford_state" where
  "apply2 tg cg op st =
     bind (qubit_index st (op_qubits op) 0) (\<lambda>q.
     bind (qubit_index st (op_qubits op) 1) (\<lambda>r.
     bind (tg q r (tableau st)) (\<lambda>T.
     bind (cg q r (ch_form st)) (\<lambda>C. Inr (st\<lparr> tableau := T, ch_form := C \<rparr>)))))"

definition apply_unitary :: "operation \<Rightarrow> clifford_state \<Rightarrow> error + clifford_state" where
  "apply_unitary op st =
     (if op_gate op = GateCNOT then apply2 tab_CNOT ch_CNOT op st
      else if op_gate op = GateCZ then apply2 tab_CZ ch_CZ op st
      else if op_gate op = GateZ then apply1 tab_Z ch_Z op st
      else if op_gate op = GateX then apply1 tab_X ch_X op st
      else if op_gate op = GateY then apply1 tab_Y ch_Y op st
      else if op_gate op = GateS then apply1 tab_S ch_S op st
      else if op_gate op = GateH then apply1 tab_H ch_H op st
      else Inl (ValueError (gate_str (op_gate op) @ '' cannot be run with Clifford simulator'')))"

text \<open>
  \<open>perform_measurement(qubits, collapse_wavefunction)\<close>: the tableau decides each
  outcome, the CH form is projected onto it. Without collapse the measurements act on
  a copy, and the state itself stays as it was.
\<close>

fun measure_loop ::
  "(nat \<rightharpoonup> nat) \<Rightarrow> nat list \<Rightarrow> clifford_state \<Rightarrow> rng \<Rightarrow> error + (nat list \<times> clifford_state \<times> rng)" where
  "measure_loop qm [] st gen = Inr ([], st, gen)"
| "measure_loop qm (qubit # rest) st gen =
     (case qm qubit of
        None \<Rightarrow> Inl KeyError
      | Some i \<Rightarrow>
          bind (tab_measure i (tableau st) gen) (\<lambda>(result, T, gen1).
          bind (project_Z i result (ch_form st)) (\<lambda>C.
          bind (measure_loop qm rest (st\<lparr> tableau := T, ch_form := C \<rparr>) gen1)
            (\<lambda>(results, st', gen2). Inr (result # results, st', gen2)))))"

definition perform_measurement ::
  "nat list \<Rightarrow> bool \<Rightarrow> clifford_state \<Rightarrow> rng \<Rightarrow> error + (nat list \<times> clifford_state \<times> rng)" where
  "perform_measurement qubits collapse_wavefunction st gen =
     bind (measure_loop (qubit_map st) qubits st gen) (\<lambda>(results, st', gen').
       Inr (results, if collapse_wavefunction then st' else st, gen'))"

text \<open>
  \<open>CliffordSimulatorStepResult.sample(qubits, repetitions, seed)\<close>. The body never
  reads \<open>seed\<close>; the bits come from the ambient generator.
\<close>

fun sample_loop ::
  "nat list \<Rightarrow> nat \<Rightarrow> clifford_state \<Rightarrow> rng \<Rightarrow> error + (bool list list \<times> rng)" where
  "sample_loop qubits 0 st gen = Inr ([], gen)"
| "sample_loop qubits (Suc k) st gen =
     bind (perform_measurement qubits False st gen) (\<lambda>(results, st', gen1).
     bind (sample_loop qubits k st gen1) (\<lambda>(more, gen2).
       Inr (map (\<lambda>b. b \<noteq> 0) results # more, gen2)))"

definition sample ::
  "clifford_state \<Rightarrow> nat list \<Rightarrow> nat \<Rightarrow> nat option \<Rightarrow> rng \<Rightarrow> error + (bool list list \<times> rng)" where
  "sample st qubits repetitions seed gen = sample_loop qubits repetitions st gen"

text \<open>
  \<open>_base_iterator\<close>: one step result per moment, holding the measurements of that
  moment by key and the state. An operation that has a unitary goes to
  \<open>apply_unitary\<close>, a measurement to \<open>perform_measurement\<close>; the \<open>if\<close>/\<open>elif\<close> has no
  \<open>else\<close>. (The source also prints the type of each operation.)
\<close>

type_synonym measurements = "string \<rightharpoonup> nat list"

record step_result =
  step_measurements :: measurements
  step_state :: clifford_state

fun run_moment ::
  "operation list \<Rightarrow> measurements \<Rightarrow> clifford_state \<Rightarrow> rng \<Rightarrow>
   error + (measurements \<times> clifford_state \<times> rng)" where
  "run_moment [] ms st gen = Inr (ms, st, gen)"
| "run_moment (op # ops) ms st gen =
     (if has_unitary op then
        bind (apply_unitary op st) (\<lambda>st'. run_moment ops ms st' gen)
      else if is_measurement op then
        bind (perform_measurement (op_qubits op) True st gen) (\<lambda>(results, st', gen').
          (let key = measurement_key op;
               old = (case ms key of None \<Rightarrow> [] | Some l \<Rightarrow> l)
           in run_moment ops (ms(key \<mapsto> old @ results)) st' gen'))
      else run_moment ops ms st gen)"

fun run_moments ::
  "operation list list \<Rightarrow> clifford_state \<Rightarrow> rng \<Rightarrow> error + (step_result list \<times> rng)" where
  "run_moments [] st gen = Inr ([], gen)"
| "run_moments (moment # rest) st gen =
     bind (run_moment moment Map.empty st gen) (\<lambda>(ms, st', gen').
     bind (run_moments rest st' gen') (\<lambda>(steps, gen'').
       Inr (\<lparr> step_measurements = ms, step_state = st' \<rparr> # steps, gen'')))"

definition base_iterator ::
  "operation list list \<Rightarrow> nat list \<Rightarrow> nat \<Rightarrow> rng \<Rightarrow> error + (step_result list \<times> rng)" where
  "base_iterator circuit qubits initial_state gen =
     (let qmap = map_of (rev (zip qubits [0..<length qubits]));
          len = length (remdups qubits)
      in bind (clifford_state_init qmap len initial_state) (\<lambda>st.
           if length circuit = 0
           then Inr ([\<lparr> step_measurements = Map.empty, step_state = st \<rparr>], gen)
           else run_moments circuit st gen))"


section \<open>Auxiliary notions for the statements\<close>

text \<open>
  A tableau is well formed when its arrays have the shapes \<open>__init__\<close> gives them:
  \<open>2n+1\<close> rows of \<open>n\<close> columns, and \<open>2n+1\<close> sign bits.
\<close>

definition wf_tableau :: "tableau \<Rightarrow> bool" where
  "wf_tableau T \<longleftrightarrow>
     length (t_xs T) = 2 * t_n T + 1 \<and> length (t_zs T) = 2 * t_n T + 1 \<and>
     length (t_rs T) = 2 * t_n T + 1 \<and>
     list_all (\<lambda>row. length row = t_n T) (t_xs T) \<and>
     list_all (\<lambda>row. length row = t_n T) (t_zs T)"

text \<open>Row \<open>i\<close> of a tableau: its x-vector, its z-vector and its sign bit.\<close>

definition row :: "tableau \<Rightarrow> nat \<Rightarrow> bool list \<times> bool list \<times> bool" where
  "row T i = (t_xs T ! i, t_zs T ! i, t_rs T ! i)"

text \<open>What \<open>_rowsum\<close> writes into its first row, as a function of the two rows.\<close>

definition row_mult :: "nat \<Rightarrow> bool list \<times> bool list \<times> bool \<Rightarrow> bool list \<times> bool list \<times> bool
   \<Rightarrow> bool list \<times> bool list \<times> bool" where
  "row_mult n a b =
     (case a of (x1, z1, r1) \<Rightarrow> case b of (x2, z2, r2) \<Rightarrow>
        (xor_vec x1 x2, xor_vec z1 z2,
         (fold (\<lambda>j r. r + rowsum_g (x2 ! j) (z2 ! j) (x1 ! j) (z1 ! j)) [0..<n]
            (2 * of_bool r1 + 2 * of_bool r2)) mod 4 \<noteq> 0))"

text \<open>The first loop of the anticommuting case of \<open>_measure\<close>, over any list of rows.\<close>

definition mult_rows_fold :: "nat \<Rightarrow> nat \<Rightarrow> nat list \<Rightarrow> tableau \<Rightarrow> tableau" where
  "mult_rows_fold q p is T = fold (\<lambda>i U. if i \<noteq> p \<and> t_xs U ! i ! q then rowsum i p U else U) is T"

text \<open>The tableau with its scratch row \<open>2n\<close> cleared, as the commuting case starts.\<close>

definition zero_scratch :: "tableau \<Rightarrow> tableau" where
  "zero_scratch T = T\<lparr> t_xs := (t_xs T)[2 * t_n T := replicate (t_n T) False],
                       t_zs := (t_zs T)[2 * t_n T := replicate (t_n T) False],
                       t_rs := (t_rs T)[2 * t_n T := False] \<rparr>"

text \<open>Two tableaux that differ at most in the scratch row.\<close>

definition scratch_variant :: "tableau \<Rightarrow> tableau \<Rightarrow> bool" where
  "scratch_variant U V \<longleftrightarrow>
     t_n V = t_n U \<and> (\<exists>a. t_xs V = (t_xs U)[2 * t_n U := a]) \<and>
     (\<exists>b. t_zs V = (t_zs U)[2 * t_n U := b]) \<and> (\<exists>c. t_rs V = (t_rs U)[2 * t_n U := c])"

text \<open>The loop of the commuting case of \<open>_measure\<close>, over any list of rows.\<close>

definition commuting_fold :: "nat \<Rightarrow> nat list \<Rightarrow> tableau \<Rightarrow> tableau" where
  "commuting_fold q is U =
     fold (\<lambda>i U. if t_xs U ! i ! q then rowsum (2 * t_n U) (t_n U + i) U else U) is U"

text \<open>
  Two tableaux of one qubit, used as concrete inputs: the state after \<open>H\<close> on \<open>|0>\<close>
  (destabilizer \<open>Z\<close>, stabilizer \<open>X\<close>) and the state \<open>|0>\<close> itself.
\<close>

definition tab_plus :: tableau where
  "tab_plus = \<lparr> t_n = 1, t_xs = [[False], [True], [False]],
                 t_zs = [[True], [False], [False]], t_rs = [False, False, False] \<rparr>"

definition tab_zero :: tableau where
  "tab_zero = \<lparr> t_n = 1, t_xs = [[True], [False], [False]],
                 t_zs = [[False], [True], [False]], t_rs = [False, False, False] \<rparr>"


section \<open>Gate sequences and the symplectic product\<close>

text \<open>
  A gate application on the tableau alone: one of the seven gates with its qubit
  indices. A sequence of them is applied in order and stops at the first error.
\<close>

datatype tab_gate = TX nat | TY nat | TZ nat | TH nat | TS nat | TCNOT nat nat | TCZ nat nat

fun apply_tab_gate :: "tab_gate \<Rightarrow> tableau \<Rightarrow> error + tableau" where
  "apply_tab_gate (TX q) T = tab_X q T"
| "apply_tab_gate (TY q) T = tab_Y q T"
| "apply_tab_gate (TZ q) T = tab_Z q T"
| "apply_tab_gate (TH q) T = tab_H q T"
| "apply_tab_gate (TS q) T = tab_S q T"
| "apply_tab_gate (TCNOT q r) T = tab_CNOT q r T"
| "apply_tab_gate (TCZ q r) T = tab_CZ q r T"

fun apply_tab_gates :: "tab_gate list \<Rightarrow> tableau \<Rightarrow> error + tableau" where
  "apply_tab_gates [] T = Inr T"
| "apply_tab_gates (gt # gs) T = bind (apply_tab_gate gt T) (apply_tab_gates gs)"

text \<open>The indices of a gate are below \<open>n\<close>, and the two of \<open>CNOT\<close> or \<open>CZ\<close> differ.\<close>

fun gate_ok :: "nat \<Rightarrow> tab_gate \<Rightarrow> bool" where
  "gate_ok n (TX q) = (q < n)"
| "gate_ok n (TY q) = (q < n)"
| "gate_ok n (TZ q) = (q < n)"
| "gate_ok n (TH q) = (q < n)"
| "gate_ok n (TS q) = (q < n)"
| "gate_ok n (TCNOT q r) = (q < n \<and> r < n \<and> q \<noteq> r)"
| "gate_ok n (TCZ q r) = (q < n \<and> r < n \<and> q \<noteq> r)"

text \<open>
  The symplectic inner product of rows \<open>i\<close> and \<open>j\<close>: the sum over the columns of
  \<open>x_i * z_j + x_j * z_i\<close>, modulo 2.
\<close>

definition sterm :: "tableau \<Rightarrow> nat \<Rightarrow> nat \<Rightarrow> nat \<Rightarrow> nat" where
  "sterm T i j k = of_bool (t_xs T ! i ! k) * of_bool (t_zs T ! j ! k)
                 + of_bool (t_xs T ! j ! k) * of_bool (t_zs T ! i ! k)"

definition symplectic :: "tableau \<Rightarrow> nat \<Rightarrow> nat \<Rightarrow> nat" where
  "symplectic T i j = sum_list (map (sterm T i j) [0..<t_n T]) mod 2"

text \<open>
  The row invariants: two distinct stabilizer rows commute, two distinct destabilizer
  rows commute, and destabilizer row \<open>i\<close> anticommutes with stabilizer row \<open>n+j\<close>
  exactly when \<open>i = j\<close>.
\<close>

definition row_invariants :: "tableau \<Rightarrow> bool" where
  "row_invariants T \<longleftrightarrow>
     (\<forall>i<t_n T. \<forall>j<t_n T.
        (i \<noteq> j \<longrightarrow> symplectic T (t_n T + i) (t_n T + j) = 0) \<and>
        (i \<noteq> j \<longrightarrow> symplectic T i j = 0) \<and>
        symplectic T i (t_n T + j) = (if i = j then 1 else 0))"

text \<open>A gate sequence applied to the tableau built from an initial basis state.\<close>

definition run_from :: "nat \<Rightarrow> nat \<Rightarrow> tab_gate list \<Rightarrow> error + tableau" where
  "run_from n initial_state gs = bind (tableau_init n initial_state) (apply_tab_gates gs)"

text \<open>A gate keeps the shape and all symplectic products of the rows.\<close>

definition symp_rel :: "tableau \<Rightarrow> tableau \<Rightarrow> bool" where
  "symp_rel T T' \<longleftrightarrow> wf_tableau T' \<and> t_n T' = t_n T \<and>
     (\<forall>i j. i < 2 * t_n T + 1 \<longrightarrow> j < 2 * t_n T + 1 \<longrightarrow> symplectic T' i j = symplectic T i j)"

text \<open>The tableau that \<open>_CNOT(0, 0)\<close> leaves on one qubit: every bit cleared.\<close>

definition tab_collapsed :: tableau where
  "tab_collapsed = \<lparr> t_n = 1, t_xs = [[False], [False], [False]],
                      t_zs = [[False], [False], [False]], t_rs = [False, False, False] \<rparr>"


section \<open>Concrete states used as inputs\<close>

text \<open>The CH form of one qubit after \<open>H\<close> on \<open>|0>\<close>, of \<open>|0>\<close>, and of the Bell state.\<close>

definition ch_plus :: ch_form where
  "ch_plus = \<lparr> ch_n = 1, ch_G = [[True]], ch_F = [[True]], ch_M = [[False]], ch_gamma = [0],
                ch_v = [True], ch_s = [False], ch_omega = 1 \<rparr>"

definition ch_zero :: ch_form where
  "ch_zero = \<lparr> ch_n = 1, ch_G = [[True]], ch_F = [[True]], ch_M = [[False]], ch_gamma = [0],
                ch_v = [False], ch_s = [False], ch_omega = 1 \<rparr>"

text \<open>The combined state of one qubit after \<open>H\<close> on \<open>|0>\<close>.\<close>

definition st_plus :: clifford_state where
  "st_plus = \<lparr> qubit_map = [0 \<mapsto> 0], st_n = 1, tableau = tab_plus, ch_form = ch_plus \<rparr>"

definition ch_bell :: ch_form where
  "ch_bell = \<lparr> ch_n = 2, ch_G = [[True, False], [True, True]], ch_F = [[True, True], [False, True]],
                ch_M = [[False, False], [False, False]], ch_gamma = [0, 0],
                ch_v = [True, False], ch_s = [False, False], ch_omega = 1 \<rparr>"

text \<open>Two vectors agree componentwise within a tolerance.\<close>

definition close_to :: "real \<Rightarrow> complex list \<Rightarrow> complex list \<Rightarrow> bool" where
  "close_to tol a e = list_all2 (\<lambda>x y. cmod (x - y) \<le> tol) a e"


section \<open>Well-formed CH forms and operation sequences\<close>

text \<open>A CH form is well formed when its arrays have the shapes \<open>__init__\<close> gives them.\<close>

definition wf_ch :: "ch_form \<Rightarrow> bool" where
  "wf_ch C \<longleftrightarrow>
     length (ch_G C) = ch_n C \<and> length (ch_F C) = ch_n C \<and> length (ch_M C) = ch_n C \<and>
     list_all (\<lambda>row. length row = ch_n C) (ch_G C) \<and>
     list_all (\<lambda>row. length row = ch_n C) (ch_F C) \<and>
     list_all (\<lambda>row. length row = ch_n C) (ch_M C) \<and>
     length (ch_gamma C) = ch_n C \<and> length (ch_v C) = ch_n C \<and> length (ch_s C) = ch_n C"

text \<open>
  An operation on the CH form alone: one of the seven gates or \<open>project_Z\<close>, with its
  qubit indices. A sequence of them is applied in order and stops at the first error.
\<close>

datatype ch_op = OpX nat | OpY nat | OpZ nat | OpH nat | OpS nat | OpCNOT nat nat | OpCZ nat nat
  | OpProject nat nat

fun apply_ch_op :: "ch_op \<Rightarrow> ch_form \<Rightarrow> error + ch_form" where
  "apply_ch_op (OpX q) C = ch_X q C"
| "apply_ch_op (OpY q) C = ch_Y q C"
| "apply_ch_op (OpZ q) C = ch_Z q C"
| "apply_ch_op (OpH q) C = ch_H q C"
| "apply_ch_op (OpS q) C = ch_S q C"
| "apply_ch_op (OpCNOT q r) C = ch_CNOT q r C"
| "apply_ch_op (OpCZ q r) C = ch_CZ q r C"
| "apply_ch_op (OpProject q z) C = project_Z q z C"

fun apply_ch_ops :: "ch_op list \<Rightarrow> ch_form \<Rightarrow> error + ch_form" where
  "apply_ch_ops [] C = Inr C"
| "apply_ch_ops (x # rest) C = bind (apply_ch_op x C) (apply_ch_ops rest)"

text \<open>A sequence of operations applied to the CH form built from an initial basis state.\<close>

definition run_ch :: "nat \<Rightarrow> nat \<Rightarrow> ch_op list \<Rightarrow> error + ch_form" where
  "run_ch n initial_state ops = bind (ch_init n initial_state) (apply_ch_ops ops)"

text \<open>The indices of an operation are below \<open>n\<close>.\<close>

fun ch_op_ok :: "nat \<Rightarrow> ch_op \<Rightarrow> bool" where
  "ch_op_ok n (OpX q) = (q < n)"
| "ch_op_ok n (OpY q) = (q < n)"
| "ch_op_ok n (OpZ q) = (q < n)"
| "ch_op_ok n (OpH q) = (q < n)"
| "ch_op_ok n (OpS q) = (q < n)"
| "ch_op_ok n (OpCNOT q r) = (q < n \<and> r < n)"
| "ch_op_ok n (OpCZ q r) = (q < n \<and> r < n)"
| "ch_op_ok n (OpProject q z) = (q < n)"

text \<open>
  The two halves of the second branch of \<open>_update_sum\<close>: the choice of the pivot with
  the loops that reduce the differing columns onto it, and the rest from the unit vector
  \<open>e\<close> on.
\<close>

definition choose_pivot :: "bool list \<Rightarrow> bool list \<Rightarrow> ch_form \<Rightarrow> error + (nat \<times> ch_form)" where
  "choose_pivot t u C =
     (let set0 = where_true (and_vec (not_vec (ch_v C)) (xor_vec t u));
          set1 = where_true (and_vec (ch_v C) (xor_vec t u))
      in if length set0 > 0 then
           (let q = set0 ! 0;
                C1 = fold (\<lambda>i D. if i \<noteq> q then ch_CNOT_right q i D else D) set0 C;
                C2 = fold (\<lambda>i D. ch_CZ_right q i D) set1 C1
            in Inr (q, C2))
         else if length set1 > 0 then
           (let q = set1 ! 0;
                C1 = fold (\<lambda>i D. if i \<noteq> q then ch_CNOT_right i q D else D) set1 C
            in Inr (q, C1))
         else Inl UnboundLocalError)"

definition finish_sum :: "bool list \<Rightarrow> bool list \<Rightarrow> int \<Rightarrow> int \<Rightarrow> nat \<Rightarrow> ch_form \<Rightarrow> error + ch_form" where
  "finish_sum t u delta alpha q C3 =
     (let e = (replicate (ch_n C3) False)[q := True];
          (y, z) = (if t ! q then (xor_vec u e, u) else (t, xor_vec t e))
      in bind (H_decompose (ch_v C3 ! q) (y ! q) (z ! q) delta) (\<lambda>(omega, a, b, c).
           (let C4 = C3\<lparr> ch_s := y[q := c],
                         ch_omega := ch_omega C3 * ((- 1) ^ nat alpha * omega) \<rparr>;
                C5 = (if a then ch_S_right q C4 else C4)
            in Inr (C5\<lparr> ch_v := (ch_v C5)[q := (ch_v C5 ! q \<noteq> (b \<noteq> ch_v C5 ! q))] \<rparr>))))"

text \<open>
  The result of an operation: with indices in range a well-formed state of the same
  size, otherwise an IndexError; and either of the two.
\<close>

definition res_ok :: "nat \<Rightarrow> bool \<Rightarrow> error + ch_form \<Rightarrow> bool" where
  "res_ok n in_range r \<longleftrightarrow>
     (if in_range then (\<exists>C'. r = Inr C' \<and> wf_ch C' \<and> ch_n C' = n) else r = Inl IndexError)"

definition res_any :: "nat \<Rightarrow> error + ch_form \<Rightarrow> bool" where
  "res_any n r \<longleftrightarrow> (\<exists>C'. r = Inr C' \<and> wf_ch C' \<and> ch_n C' = n) \<or> r = Inl IndexError"

text \<open>The CH form of \<open>|0...0>\<close>, before the loop of \<open>__init__\<close>.\<close>

definition ch_initial :: "nat \<Rightarrow> ch_form" where
  "ch_initial n = \<lparr> ch_n = n, ch_G = eye n, ch_F = eye n, ch_M = zeros n n,
                    ch_gamma = replicate n 0, ch_v = replicate n False,
                    ch_s = replicate n False, ch_omega = 1 \<rparr>"


section \<open>Pauli strings on state vectors\<close>

text \<open>The operations \<open>H\<close>, \<open>S\<close> and \<open>Y\<close> on the qubit 0.\<close>

definition opH :: operation where "opH = \<lparr> op_gate = GateH, op_qubits = [0] \<rparr>"

definition opS :: operation where "opS = \<lparr> op_gate = GateS, op_qubits = [0] \<rparr>"

definition opY :: operation where "opY = \<lparr> op_gate = GateY, op_qubits = [0] \<rparr>"

text \<open>
  The action of a signed Pauli string on a state vector indexed big-endian, from the
  matrices of \<open>X\<close>, \<open>Y\<close> and \<open>Z\<close>: the entry at \<open>x\<close> of \<open>P psi\<close> is the coefficient
  times one factor per qubit times the entry of \<open>psi\<close> at \<open>x\<close> with the bits under an
  \<open>X\<close> or a \<open>Y\<close> flipped. \<open>P\<close> stabilizes \<open>psi\<close> when \<open>P psi = psi\<close>.
\<close>

fun pauli_factor :: "pauli \<Rightarrow> bool \<Rightarrow> complex" where
  "pauli_factor PI b = 1"
| "pauli_factor PX b = 1"
| "pauli_factor PY b = (if b then \<i> else - \<i>)"
| "pauli_factor PZ b = (if b then - 1 else 1)"

fun pauli_flip :: "pauli \<Rightarrow> bool \<Rightarrow> bool" where
  "pauli_flip PI b = b"
| "pauli_flip PX b = (\<not> b)"
| "pauli_flip PY b = (\<not> b)"
| "pauli_flip PZ b = b"

definition bits_to_int :: "bool list \<Rightarrow> nat" where
  "bits_to_int bs = foldl (\<lambda>acc b. 2 * acc + of_bool b) 0 bs"

definition apply_pauli_string :: "dense_pauli_string \<Rightarrow> complex list \<Rightarrow> complex list" where
  "apply_pauli_string P psi =
     (case P of (c, ps) \<Rightarrow>
        map (\<lambda>x. let y = big_endian_int_to_bits x (length ps)
                 in of_int c * prod_list (map2 pauli_factor ps y)
                    * psi ! bits_to_int (map2 pauli_flip ps y))
            [0..<length psi])"

definition stabilizes :: "dense_pauli_string \<Rightarrow> complex list \<Rightarrow> bool" where
  "stabilizes P psi \<longleftrightarrow> apply_pauli_string P psi = psi"

text \<open>
  The state of one qubit after \<open>H\<close>, \<open>S\<close>, \<open>Y\<close> on \<open>|0>\<close>, as the two representations
  hold it.
\<close>

definition ch_plus_i :: ch_form where
  "ch_plus_i = \<lparr> ch_n = 1, ch_G = [[True]], ch_F = [[True]], ch_M = [[True]], ch_gamma = [3],
                  ch_v = [True], ch_s = [False], ch_omega = 1 \<rparr>"

definition tab_minus_y :: tableau where
  "tab_minus_y = \<lparr> t_n = 1, t_xs = [[False], [True], [False]],
                    t_zs = [[True], [True], [False]], t_rs = [True, True, False] \<rparr>"

definition st_minus_y :: clifford_state where
  "st_minus_y = \<lparr> qubit_map = [0 \<mapsto> 0], st_n = 1, tableau = tab_minus_y, ch_form = ch_plus_i \<rparr>"


section \<open>Measurement on the tableau\<close>

lemma length_xor_vec [simp]: "length (xor_vec a b) = min (length a) (length b)"
  by (simp add: xor_vec_def)

lemma rowsum_n [simp]: "t_n (rowsum i p T) = t_n T"
  by (simp add: rowsum_def Let_def)

lemma rowsum_row_other: "j \<noteq> i \<Longrightarrow> row (rowsum i p T) j = row T j"
  by (simp add: rowsum_def row_def Let_def)

lemma rowsum_row_self:
  "i < length (t_xs T) \<Longrightarrow> i < length (t_zs T) \<Longrightarrow> i < length (t_rs T) \<Longrightarrow>
   row (rowsum i p T) i = row_mult (t_n T) (row T i) (row T p)"
  by (simp add: rowsum_def row_def row_mult_def Let_def)

lemma nth_update_if: "(l[i := x]) ! j = (if i = j \<and> i < length l then x else l ! j)"
  by (cases "i < length l") (auto simp: nth_list_update list_update_beyond)

lemma wf_rowsum: "wf_tableau T \<Longrightarrow> p < 2 * t_n T + 1 \<Longrightarrow> wf_tableau (rowsum i p T)"
  by (simp add: wf_tableau_def rowsum_def Let_def list_all_length nth_update_if)

lemma mult_rows_fold_n [simp]: "t_n (mult_rows_fold q p is T) = t_n T"
  unfolding mult_rows_fold_def by (induction "is" arbitrary: T) auto

lemma wf_mult_rows_fold:
  "wf_tableau T \<Longrightarrow> p < 2 * t_n T + 1 \<Longrightarrow> wf_tableau (mult_rows_fold q p is T)"
  unfolding mult_rows_fold_def by (induction "is" arbitrary: T) (auto simp: wf_rowsum)

lemma row_xs: "fst (row T i) = t_xs T ! i"
  by (simp add: row_def)

lemma mult_rows_fold_row:
  assumes "wf_tableau T" "distinct is" "\<forall>i\<in>set is. i < 2 * t_n T + 1" "p < 2 * t_n T + 1"
  shows "row (mult_rows_fold q p is T) j =
           (if j \<in> set is \<and> j \<noteq> p \<and> t_xs T ! j ! q
            then row_mult (t_n T) (row T j) (row T p) else row T j)"
  using assms
proof (induction "is" arbitrary: T)
  case Nil
  then show ?case by (simp add: mult_rows_fold_def)
next
  case (Cons i "is")
  let ?U = "if i \<noteq> p \<and> t_xs T ! i ! q then rowsum i p T else T"
  have step: "mult_rows_fold q p (i # is) T = mult_rows_fold q p is ?U"
    by (simp add: mult_rows_fold_def)
  have nU: "t_n ?U = t_n T" by simp
  have wfU: "wf_tableau ?U"
    using Cons.prems(1,4) by (simp add: wf_rowsum)
  have len: "i < length (t_xs T)" "i < length (t_zs T)" "i < length (t_rs T)"
    using Cons.prems(1,3) by (simp_all add: wf_tableau_def)
  have rowU: "row ?U k = (if k = i \<and> i \<noteq> p \<and> t_xs T ! i ! q
                          then row_mult (t_n T) (row T i) (row T p) else row T k)" for k
    using len by (simp add: rowsum_row_other rowsum_row_self)
  have xsU: "t_xs ?U ! k = fst (row ?U k)" for k
    by (simp only: row_xs)
  have IH: "row (mult_rows_fold q p is ?U) j =
           (if j \<in> set is \<and> j \<noteq> p \<and> t_xs ?U ! j ! q
            then row_mult (t_n ?U) (row ?U j) (row ?U p) else row ?U j)"
    using Cons.IH[of ?U] wfU Cons.prems(2,3,4) by simp
  have ji: "j \<in> set is \<Longrightarrow> j \<noteq> i" using Cons.prems(2) by auto
  show ?case
  proof (cases "j \<in> set is")
    case True
    then have "j \<noteq> i" using ji by simp
    then have "row ?U j = row T j" using rowU by simp
    moreover have "row ?U p = row T p" using rowU[of p] by (cases "p = i") simp_all
    moreover have "t_xs ?U ! j = t_xs T ! j" using \<open>row ?U j = row T j\<close> xsU[of j] by (simp add: row_xs)
    ultimately show ?thesis unfolding step IH using True nU by simp
  next
    case False
    show ?thesis unfolding step IH using False rowU[of j] by (cases "j = i") auto
  qed
qed

lemma find_p_Some:
  assumes "find_p T q = Some p"
  shows "t_n T \<le> p \<and> p < 2 * t_n T \<and> t_xs T ! p ! q \<and>
         (\<forall>i. t_n T \<le> i \<and> i < p \<longrightarrow> \<not> t_xs T ! i ! q)"
proof -
  from assms obtain k where k: "k < length [t_n T..<2 * t_n T]"
      "t_xs T ! ([t_n T..<2 * t_n T] ! k) ! q" "p = [t_n T..<2 * t_n T] ! k"
      "\<forall>j<k. \<not> t_xs T ! ([t_n T..<2 * t_n T] ! j) ! q"
    unfolding find_p_def find_Some_iff by blast
  have pk: "p = t_n T + k" using k(1,3) by simp
  have "\<not> t_xs T ! i ! q" if "t_n T \<le> i" "i < p" for i
  proof -
    have "i - t_n T < k" using that pk by simp
    then have "\<not> t_xs T ! ([t_n T..<2 * t_n T] ! (i - t_n T)) ! q" using k(4) by blast
    moreover have "[t_n T..<2 * t_n T] ! (i - t_n T) = i" using that pk k(1) by simp
    ultimately show ?thesis by simp
  qed
  then show ?thesis using k pk by simp
qed

lemma measure_anticommuting_alt:
  assumes "wf_tableau T" "p < 2 * t_n T + 1"
  shows "measure_anticommuting q p r T =
     (let T1 = mult_rows_fold q p [0..<2 * t_n T] T
      in T1\<lparr> t_xs := (t_xs T1)[p - t_n T := t_xs T1 ! p, p := replicate (t_n T) False],
             t_zs := (t_zs T1)[p - t_n T := t_zs T1 ! p, p := (replicate (t_n T) False)[q := True]],
             t_rs := (t_rs T1)[p - t_n T := t_rs T1 ! p, p := r] \<rparr>)"
proof -
  have "length (t_zs (mult_rows_fold q p [0..<2 * t_n T] T)) = 2 * t_n T + 1"
    using wf_mult_rows_fold[OF assms, of q "[0..<2 * t_n T]"] by (simp add: wf_tableau_def)
  then show ?thesis
    using assms(2) by (simp add: measure_anticommuting_def mult_rows_fold_def[symmetric] Let_def)
qed

text \<open>
  Claim C3. In the anticommuting case of \<open>measure(q)\<close>, where \<open>p\<close> is the first
  stabilizer row with its x-bit at \<open>q\<close> set and \<open>r\<close> is the bit the call draws (the next
  bit \<open>gen 0\<close> of the generator): every row \<open>i\<close> other than \<open>p\<close> with \<open>xs[i,q]\<close> set has
  been multiplied by row \<open>p\<close> (\<open>_rowsum(i, p)\<close> on the tableau before the call), the
  destabilizer row \<open>p - n\<close> holds what row \<open>p\<close> held, row \<open>p\<close> has no x-bit, the unit
  vector at \<open>q\<close> as z-bits and the sign \<open>r\<close>, and the call returns \<open>r\<close>.
\<close>

theorem measure_anticommuting_case:
  assumes "wf_tableau T" and "q < t_n T" and "find_p T q = Some p"
  shows "\<exists>T'. tab_measure q T gen = Inr (of_bool (gen 0), T', \<lambda>i. gen (Suc i)) \<and>
           t_n T \<le> p \<and> p < 2 * t_n T \<and> t_xs T ! p ! q \<and>
           (\<forall>i. t_n T \<le> i \<and> i < p \<longrightarrow> \<not> t_xs T ! i ! q) \<and>
           (\<forall>i<2 * t_n T. i \<noteq> p \<longrightarrow> i \<noteq> p - t_n T \<longrightarrow>
              row T' i = (if t_xs T ! i ! q then row (rowsum i p T) i else row T i)) \<and>
           row T' (p - t_n T) = row T p \<and>
           row T' p = (replicate (t_n T) False, (replicate (t_n T) False)[q := True], gen 0) \<and>
           row T' (2 * t_n T) = row T (2 * t_n T) \<and>
           t_n T' = t_n T \<and> wf_tableau T'"
proof -
  let ?n = "t_n T"
  let ?T1 = "mult_rows_fold q p [0..<2 * ?n] T"
  let ?T' = "measure_anticommuting q p (gen 0) T"
  from find_p_Some[OF assms(3)] have p: "?n \<le> p" "p < 2 * ?n" "t_xs T ! p ! q"
    and first: "\<forall>i. ?n \<le> i \<and> i < p \<longrightarrow> \<not> t_xs T ! i ! q" by auto
  have wf1: "wf_tableau ?T1" using assms(1) p by (simp add: wf_mult_rows_fold)
  have len1: "length (t_xs ?T1) = 2 * ?n + 1" "length (t_zs ?T1) = 2 * ?n + 1"
    "length (t_rs ?T1) = 2 * ?n + 1"
    using wf1 by (simp_all add: wf_tableau_def)
  have len: "length (t_xs T) = 2 * ?n + 1" "length (t_zs T) = 2 * ?n + 1"
    "length (t_rs T) = 2 * ?n + 1"
    using assms(1) by (simp_all add: wf_tableau_def)
  have row1: "row ?T1 j = (if j < 2 * ?n \<and> j \<noteq> p \<and> t_xs T ! j ! q
                           then row_mult ?n (row T j) (row T p) else row T j)" for j
    using mult_rows_fold_row[of T "[0..<2 * ?n]" p q j] assms(1) p by simp
  have rowp: "row ?T1 p = row T p" using row1[of p] by simp
  have rowT': "row ?T' j = (if j = p \<and> j < 2 * ?n + 1
                 then (replicate ?n False, (replicate ?n False)[q := True], gen 0)
               else if j = p - ?n \<and> j < 2 * ?n + 1 then row ?T1 p else row ?T1 j)" for j
    using len1 p assms(1) by (simp add: measure_anticommuting_alt Let_def row_def nth_update_if)
  have res: "tab_measure q T gen = Inr (of_bool (gen 0), ?T', \<lambda>i. gen (Suc i))"
  proof -
    have "t_rs ?T' ! p = gen 0" using rowT'[of p] p by (simp add: row_def)
    then show ?thesis
      using assms(2,3) by (simp add: tab_measure_def randint2_def Let_def)
  qed
  have others: "\<forall>i<2 * ?n. i \<noteq> p \<longrightarrow> i \<noteq> p - ?n \<longrightarrow>
              row ?T' i = (if t_xs T ! i ! q then row (rowsum i p T) i else row T i)"
    using rowT' row1 len by (simp add: rowsum_row_self)
  have pn: "p - ?n \<noteq> p" "p - ?n < 2 * ?n + 1" using p assms(2) by auto
  have pair: "row ?T' (p - ?n) = row T p" using rowT'[of "p - ?n"] rowp pn by simp
  have own: "row ?T' p = (replicate ?n False, (replicate ?n False)[q := True], gen 0)"
    using rowT'[of p] p by simp
  have "2 * ?n \<noteq> p - ?n" "2 * ?n \<noteq> p" using p assms(2) by auto
  then have scratch: "row ?T' (2 * ?n) = row T (2 * ?n)"
    using rowT'[of "2 * ?n"] row1[of "2 * ?n"] by simp
  have nT': "t_n ?T' = ?n" using p assms(1) by (simp add: measure_anticommuting_alt Let_def)
  have wfT': "wf_tableau ?T'"
    using wf1 assms(1,2) p
    by (simp add: measure_anticommuting_alt Let_def wf_tableau_def list_all_length nth_update_if)
  show ?thesis
    using res p first others pair own scratch nT' wfT' by blast
qed

theorem measure_anticommuting_case_witness:
  "wf_tableau tab_plus \<and> 0 < t_n tab_plus \<and> find_p tab_plus 0 = Some 1 \<and>
   (\<exists>T'. tab_measure 0 tab_plus (\<lambda>_. True) = Inr (1, T', \<lambda>_. True) \<and>
         row T' 0 = row tab_plus 1 \<and> row T' 1 = ([False], [True], True))"
proof -
  have h1: "wf_tableau tab_plus" by (simp add: wf_tableau_def tab_plus_def)
  have h2: "0 < t_n tab_plus" by (simp add: tab_plus_def)
  have h3: "find_p tab_plus 0 = Some 1" by (simp add: find_p_def tab_plus_def upt_conv_Cons)
  have n: "t_n tab_plus = 1" by (simp add: tab_plus_def)
  show ?thesis
    using measure_anticommuting_case[OF h1 h2 h3, of "\<lambda>_. True"] h1 h2 h3 n by auto
qed

lemma scratch_variant_refl: "scratch_variant U U"
  unfolding scratch_variant_def by (metis list_update_id)

lemma scratch_variant_n: "scratch_variant U V \<Longrightarrow> t_n V = t_n U"
  by (auto simp: scratch_variant_def)

lemma scratch_variant_trans:
  "scratch_variant U V \<Longrightarrow> scratch_variant V W \<Longrightarrow> scratch_variant U W"
  unfolding scratch_variant_def by (metis list_update_overwrite)

lemma scratch_variant_rowsum: "scratch_variant U (rowsum (2 * t_n U) k U)"
  unfolding scratch_variant_def rowsum_def Let_def by auto

lemma scratch_variant_zero: "scratch_variant U (zero_scratch U)"
  unfolding scratch_variant_def zero_scratch_def by auto

lemma scratch_variant_row: "scratch_variant U V \<Longrightarrow> j \<noteq> 2 * t_n U \<Longrightarrow> row V j = row U j"
  by (auto simp: scratch_variant_def row_def)

lemma scratch_variant_zero_eq: "scratch_variant U V \<Longrightarrow> zero_scratch V = zero_scratch U"
  by (cases U, cases V) (auto simp: scratch_variant_def zero_scratch_def)

lemma measure_commuting_alt:
  "measure_commuting q T = commuting_fold q [0..<t_n T] (zero_scratch T)"
proof -
  have "t_n (fold (\<lambda>i U. if t_xs U ! i ! q then rowsum (2 * t_n T) (t_n T + i) U else U) is U) = t_n U"
    for "is" U by (induction "is" arbitrary: U) auto
  have "fold (\<lambda>i U. if t_xs U ! i ! q then rowsum (2 * t_n T) (t_n T + i) U else U) is U
        = fold (\<lambda>i U. if t_xs U ! i ! q then rowsum (2 * t_n U) (t_n U + i) U else U) is U"
    if "t_n U = t_n T" for "is" U
    using that by (induction "is" arbitrary: U) auto
  then show ?thesis
    by (simp add: measure_commuting_def commuting_fold_def zero_scratch_def Let_def)
qed

lemma commuting_fold_variant: "scratch_variant U (commuting_fold q is U)"
proof (induction "is" arbitrary: U)
  case Nil
  then show ?case by (simp add: commuting_fold_def scratch_variant_refl)
next
  case (Cons i "is")
  let ?V = "if t_xs U ! i ! q then rowsum (2 * t_n U) (t_n U + i) U else U"
  have "scratch_variant U ?V" by (simp add: scratch_variant_refl scratch_variant_rowsum)
  moreover have "scratch_variant ?V (commuting_fold q is ?V)" by (rule Cons.IH)
  moreover have "commuting_fold q (i # is) U = commuting_fold q is ?V"
    by (simp add: commuting_fold_def)
  ultimately show ?case using scratch_variant_trans by metis
qed

lemma commuting_fold_filter:
  assumes "\<forall>i\<in>set is. i < 2 * t_n U"
  shows "commuting_fold q is U =
         fold (\<lambda>i. rowsum (2 * t_n U) (t_n U + i)) (filter (\<lambda>i. t_xs U ! i ! q) is) U"
  using assms
proof (induction "is" arbitrary: U)
  case Nil
  then show ?case by (simp add: commuting_fold_def)
next
  case (Cons i "is")
  let ?V = "if t_xs U ! i ! q then rowsum (2 * t_n U) (t_n U + i) U else U"
  have step: "commuting_fold q (i # is) U = commuting_fold q is ?V"
    by (simp add: commuting_fold_def)
  have var: "scratch_variant U ?V" by (simp add: scratch_variant_refl scratch_variant_rowsum)
  have nV: "t_n ?V = t_n U" by simp
  have "t_xs ?V ! j = t_xs U ! j" if "j \<in> set is" for j
  proof -
    have "j \<noteq> 2 * t_n U" using Cons.prems that by auto
    then have "row ?V j = row U j" using var scratch_variant_row by blast
    then show ?thesis by (simp add: row_def)
  qed
  then have filt: "filter (\<lambda>j. t_xs ?V ! j ! q) is = filter (\<lambda>j. t_xs U ! j ! q) is"
    by (intro filter_cong) auto
  have "commuting_fold q is ?V =
        fold (\<lambda>i. rowsum (2 * t_n ?V) (t_n ?V + i)) (filter (\<lambda>i. t_xs ?V ! i ! q) is) ?V"
    using Cons.IH[of ?V] Cons.prems nV by simp
  then show ?case unfolding step filt nV by simp
qed

lemma wf_zero_scratch: "wf_tableau T \<Longrightarrow> wf_tableau (zero_scratch T)"
  by (simp add: wf_tableau_def zero_scratch_def list_all_length nth_update_if)

lemma commuting_fold_n [simp]: "t_n (commuting_fold q is U) = t_n U"
  using commuting_fold_variant[of U q "is"] by (simp add: scratch_variant_def)

lemma wf_commuting_fold:
  "wf_tableau U \<Longrightarrow> \<forall>i\<in>set is. i < t_n U \<Longrightarrow> wf_tableau (commuting_fold q is U)"
proof (induction "is" arbitrary: U)
  case Nil
  then show ?case by (simp add: commuting_fold_def)
next
  case (Cons i "is")
  let ?V = "if t_xs U ! i ! q then rowsum (2 * t_n U) (t_n U + i) U else U"
  have "wf_tableau ?V" using Cons.prems by (simp add: wf_rowsum)
  moreover have "commuting_fold q (i # is) U = commuting_fold q is ?V"
    by (simp add: commuting_fold_def)
  ultimately show ?case using Cons.IH[of ?V] Cons.prems by simp
qed

lemma find_p_scratch_variant:
  assumes "scratch_variant U V"
  shows "find_p V q = find_p U q"
proof -
  have "t_xs V ! i = t_xs U ! i" if "i \<in> set [t_n U..<2 * t_n U]" for i
  proof -
    have "i \<noteq> 2 * t_n U" using that by simp
    then have "row V i = row U i" using assms scratch_variant_row by blast
    then show ?thesis by (simp add: row_def)
  qed
  then have "find (\<lambda>i. t_xs V ! i ! q) [t_n U..<2 * t_n U] = find (\<lambda>i. t_xs U ! i ! q) [t_n U..<2 * t_n U]"
    by (intro find_cong) auto
  then show ?thesis using scratch_variant_n[OF assms] by (simp add: find_p_def)
qed

text \<open>
  Claim C4. In the commuting case of \<open>measure(q)\<close> (no stabilizer row has its x-bit at
  \<open>q\<close> set) the outcome is the sign bit of the scratch row after it has been cleared and
  multiplied by the stabilizer row \<open>n+i\<close> for every destabilizer row \<open>i\<close> with \<open>xs[i,q]\<close>
  set; the generator is left as it was, whatever it is; the rows \<open>0..2n-1\<close> of \<open>xs\<close>,
  \<open>zs\<close> and \<open>rs\<close> are unchanged; and measuring the same qubit again returns the same
  bit (and the same tableau).
\<close>

theorem measure_commuting_case:
  assumes "wf_tableau T" and "q < t_n T" and "find_p T q = None"
  shows "\<exists>T' b.
           (\<forall>gen. tab_measure q T gen = Inr (b, T', gen)) \<and>
           T' = fold (\<lambda>i. rowsum (2 * t_n T) (t_n T + i))
                  (filter (\<lambda>i. t_xs T ! i ! q) [0..<t_n T]) (zero_scratch T) \<and>
           b = of_bool (t_rs T' ! (2 * t_n T)) \<and>
           (\<forall>i<2 * t_n T. row T' i = row T i) \<and>
           t_n T' = t_n T \<and> wf_tableau T' \<and>
           (\<forall>gen. tab_measure q T' gen = Inr (b, T', gen))"
proof -
  let ?n = "t_n T"
  let ?Z = "zero_scratch T"
  let ?T' = "measure_commuting q T"
  let ?b = "of_bool (t_rs ?T' ! (2 * ?n)) :: nat"
  have nZ: "t_n ?Z = ?n" by (simp add: zero_scratch_def)
  have T'_fold: "?T' = commuting_fold q [0..<?n] ?Z"
    using measure_commuting_alt[of q T] by simp
  have varZ: "scratch_variant T ?Z" by (rule scratch_variant_zero)
  have varZT': "scratch_variant ?Z ?T'" unfolding T'_fold by (rule commuting_fold_variant)
  have var: "scratch_variant T ?T'" using varZ varZT' by (rule scratch_variant_trans)
  have nT': "t_n ?T' = ?n" using var by (rule scratch_variant_n)
  have rows: "\<forall>i<2 * ?n. row ?T' i = row T i" using var scratch_variant_row by auto
  have wfT': "wf_tableau ?T'"
    unfolding T'_fold using assms(1) nZ by (intro wf_commuting_fold wf_zero_scratch) simp_all
  have res: "tab_measure q T gen = Inr (?b, ?T', gen)" for gen
    using assms(2,3) by (simp add: tab_measure_def Let_def)
  have xsZ: "t_xs ?Z ! i = t_xs T ! i" if "i < ?n" for i
  proof -
    have "i \<noteq> 2 * ?n" using that by simp
    then have "row ?Z i = row T i" using varZ scratch_variant_row by blast
    then show ?thesis by (simp add: row_def)
  qed
  have filt: "filter (\<lambda>i. t_xs ?Z ! i ! q) [0..<?n] = filter (\<lambda>i. t_xs T ! i ! q) [0..<?n]"
    by (intro filter_cong) (auto simp: xsZ)
  have descr: "?T' = fold (\<lambda>i. rowsum (2 * ?n) (?n + i))
                  (filter (\<lambda>i. t_xs T ! i ! q) [0..<?n]) ?Z"
    unfolding T'_fold using commuting_fold_filter[of "[0..<?n]" ?Z q] nZ filt by simp
  have again: "tab_measure q ?T' gen = Inr (?b, ?T', gen)" for gen
  proof -
    have "find_p ?T' q = None" using find_p_scratch_variant[OF var] assms(3) by simp
    moreover have "measure_commuting q ?T' = ?T'"
      using measure_commuting_alt[of q ?T'] scratch_variant_zero_eq[OF var] nT' T'_fold by simp
    ultimately show ?thesis using assms(2) nT' by (simp add: tab_measure_def Let_def)
  qed
  show ?thesis
    using res descr rows nT' wfT' again by blast
qed

theorem measure_commuting_case_witness:
  "wf_tableau tab_zero \<and> 0 < t_n tab_zero \<and> find_p tab_zero 0 = None \<and>
   (\<exists>T'. tab_measure 0 tab_zero (\<lambda>_. True) = Inr (0, T', \<lambda>_. True) \<and>
         tab_measure 0 T' (\<lambda>_. False) = Inr (0, T', \<lambda>_. False) \<and>
         row T' 0 = row tab_zero 0 \<and> row T' 1 = row tab_zero 1)"
proof -
  have h1: "wf_tableau tab_zero" by (simp add: wf_tableau_def tab_zero_def)
  have h2: "0 < t_n tab_zero" by (simp add: tab_zero_def)
  have h3: "find_p tab_zero 0 = None" by (simp add: find_p_def tab_zero_def upt_conv_Cons)
  have n: "t_n tab_zero = 1" by (simp add: tab_zero_def)
  have b: "tab_measure 0 tab_zero (\<lambda>_. True) = Inr (0, measure_commuting 0 tab_zero, \<lambda>_. True)"
    by (simp add: tab_measure_def find_p_def tab_zero_def measure_commuting_def rowsum_def rowsum_g_def
        xor_vec_def upt_conv_Cons)
  from measure_commuting_case[OF h1 h2 h3] obtain T' b' where
    r: "\<forall>gen. tab_measure 0 tab_zero gen = Inr (b', T', gen)"
       "\<forall>i<2 * t_n tab_zero. row T' i = row tab_zero i"
       "\<forall>gen. tab_measure 0 T' gen = Inr (b', T', gen)"
    by blast
  have "b' = 0" using r(1) b by simp
  then show ?thesis using r h1 h2 h3 n by auto
qed


section \<open>The row invariants under the gates\<close>

lemma length_col [simp]: "length (col m q) = length m"
  by (simp add: col_def)

lemma nth_col [simp]: "i < length m \<Longrightarrow> col m q ! i = m ! i ! q"
  by (simp add: col_def)

lemma length_set_col [simp]: "length (set_col m q c) = min (length m) (length c)"
  by (simp add: set_col_def)

lemma nth_set_col [simp]:
  "i < length m \<Longrightarrow> i < length c \<Longrightarrow> set_col m q c ! i = (m ! i)[q := c ! i]"
  by (simp add: set_col_def)

lemma nth_xor_vec [simp]:
  "i < length a \<Longrightarrow> i < length b \<Longrightarrow> xor_vec a b ! i = (a ! i \<noteq> b ! i)"
  by (simp add: xor_vec_def)

lemma length_and_vec [simp]: "length (and_vec a b) = min (length a) (length b)"
  by (simp add: and_vec_def)

lemma nth_and_vec [simp]:
  "i < length a \<Longrightarrow> i < length b \<Longrightarrow> and_vec a b ! i = (a ! i \<and> b ! i)"
  by (simp add: and_vec_def)

lemma length_or_vec [simp]: "length (or_vec a b) = min (length a) (length b)"
  by (simp add: or_vec_def)

lemma nth_or_vec [simp]:
  "i < length a \<Longrightarrow> i < length b \<Longrightarrow> or_vec a b ! i = (a ! i \<or> b ! i)"
  by (simp add: or_vec_def)

lemma length_not_vec [simp]: "length (not_vec a) = length a"
  by (simp add: not_vec_def)

lemma nth_not_vec [simp]: "i < length a \<Longrightarrow> not_vec a ! i = (\<not> a ! i)"
  by (simp add: not_vec_def)

lemma sum_list_mod2_cong:
  "(\<And>k. k \<in> set l \<Longrightarrow> f k mod 2 = (h k :: nat) mod 2) \<Longrightarrow>
   sum_list (map f l) mod 2 = sum_list (map h l) mod 2"
proof (induction l)
  case Nil
  then show ?case by simp
next
  case (Cons a l)
  have "(f a + sum_list (map f l)) mod 2 = (f a mod 2 + sum_list (map f l) mod 2) mod 2"
    by (simp add: mod_add_eq)
  also have "\<dots> = (h a mod 2 + sum_list (map h l) mod 2) mod 2"
    using Cons by simp
  also have "\<dots> = (h a + sum_list (map h l)) mod 2" by (simp add: mod_add_eq)
  finally show ?case by simp
qed

lemma wf_lengths:
  assumes "wf_tableau T"
  shows "length (t_xs T) = 2 * t_n T + 1" "length (t_zs T) = 2 * t_n T + 1"
    "length (t_rs T) = 2 * t_n T + 1"
    "i < 2 * t_n T + 1 \<Longrightarrow> length (t_xs T ! i) = t_n T"
    "i < 2 * t_n T + 1 \<Longrightarrow> length (t_zs T ! i) = t_n T"
  using assms by (auto simp: wf_tableau_def list_all_length)

lemma symp_cong:
  assumes "t_n T' = t_n T"
    and "\<And>k. k < t_n T \<Longrightarrow> sterm T' i j k mod 2 = sterm T i j k mod 2"
  shows "symplectic T' i j = symplectic T i j"
  unfolding symplectic_def assms(1) by (rule sum_list_mod2_cong) (simp add: assms(2))

lemma tab_X_ok:
  assumes "wf_tableau T" "q < t_n T"
  shows "\<exists>T'. tab_X q T = Inr T' \<and> wf_tableau T' \<and> t_n T' = t_n T \<and> (\<forall>i j. symplectic T' i j = symplectic T i j)"
  using assms by (simp add: tab_X_def wf_tableau_def symplectic_def sterm_def[abs_def])

lemma tab_Y_ok:
  assumes "wf_tableau T" "q < t_n T"
  shows "\<exists>T'. tab_Y q T = Inr T' \<and> wf_tableau T' \<and> t_n T' = t_n T \<and> (\<forall>i j. symplectic T' i j = symplectic T i j)"
  using assms by (simp add: tab_Y_def wf_tableau_def symplectic_def sterm_def[abs_def])

lemma tab_Z_ok:
  assumes "wf_tableau T" "q < t_n T"
  shows "\<exists>T'. tab_Z q T = Inr T' \<and> wf_tableau T' \<and> t_n T' = t_n T \<and> (\<forall>i j. symplectic T' i j = symplectic T i j)"
  using assms by (simp add: tab_Z_def wf_tableau_def symplectic_def sterm_def[abs_def])

lemma tab_S_ok:
  assumes "wf_tableau T" "q < t_n T"
  shows "\<exists>T'. tab_S q T = Inr T' \<and> wf_tableau T' \<and> t_n T' = t_n T \<and>
           (\<forall>i j. i < 2 * t_n T + 1 \<longrightarrow> j < 2 * t_n T + 1 \<longrightarrow> symplectic T' i j = symplectic T i j)"
proof -
  let ?T' = "T\<lparr> t_rs := xor_vec (t_rs T) (and_vec (col (t_xs T) q) (col (t_zs T) q)),
                 t_zs := set_col (t_zs T) q (xor_vec (col (t_zs T) q) (col (t_xs T) q)) \<rparr>"
  note L = wf_lengths[OF assms(1)]
  have res: "tab_S q T = Inr ?T'" using assms(2) by (simp add: tab_S_def)
  have wf': "wf_tableau ?T'"
    using assms by (simp add: wf_tableau_def list_all_length)
  have "symplectic ?T' i j = symplectic T i j" if ij: "i < 2 * t_n T + 1" "j < 2 * t_n T + 1" for i j
  proof (rule symp_cong)
    show "t_n ?T' = t_n T" by simp
    fix k assume "k < t_n T"
    then show "sterm ?T' i j k mod 2 = sterm T i j k mod 2"
      using ij L assms(2) by (simp add: sterm_def nth_update_if)
  qed
  then show ?thesis using res wf' by simp
qed

lemma sum_list_two_cols:
  fixes f h :: "nat \<Rightarrow> nat"
  assumes "q1 < n" "q2 < n" "q1 \<noteq> q2"
    and rest: "\<And>k. k < n \<Longrightarrow> k \<noteq> q1 \<Longrightarrow> k \<noteq> q2 \<Longrightarrow> f k mod 2 = h k mod 2"
    and pair: "(f q1 + f q2) mod 2 = (h q1 + h q2) mod 2"
  shows "sum_list (map f [0..<n]) mod 2 = sum_list (map h [0..<n]) mod 2"
proof -
  let ?R = "{0..<n} - {q1} - {q2}"
  have split: "sum_list (map u [0..<n]) = (u q1 + u q2) + sum u ?R" for u :: "nat \<Rightarrow> nat"
  proof -
    have "sum_list (map u [0..<n]) = sum u {0..<n}"
      by (simp add: interv_sum_list_conv_sum_set_nat)
    also have "\<dots> = u q1 + sum u ({0..<n} - {q1})"
      using assms(1) by (intro sum.remove) auto
    also have "sum u ({0..<n} - {q1}) = u q2 + sum u ?R"
      using assms(2,3) by (intro sum.remove) auto
    finally show ?thesis by simp
  qed
  have "sum f ?R mod 2 = (\<Sum>k\<in>?R. f k mod 2) mod 2" by (simp add: mod_sum_eq)
  also have "(\<Sum>k\<in>?R. f k mod 2) = (\<Sum>k\<in>?R. h k mod 2)"
    by (intro sum.cong) (auto simp: rest)
  also have "(\<Sum>k\<in>?R. h k mod 2) mod 2 = sum h ?R mod 2" by (simp add: mod_sum_eq)
  finally have R: "sum f ?R mod 2 = sum h ?R mod 2" .
  have "((f q1 + f q2) + sum f ?R) mod 2 = ((f q1 + f q2) mod 2 + sum f ?R mod 2) mod 2"
    by (simp add: mod_add_eq)
  also have "\<dots> = ((h q1 + h q2) mod 2 + sum h ?R mod 2) mod 2"
    using pair R by simp
  also have "\<dots> = ((h q1 + h q2) + sum h ?R) mod 2" by (simp add: mod_add_eq)
  finally show ?thesis unfolding split .
qed

lemma tab_H_ok:
  assumes "wf_tableau T" "q < t_n T"
  shows "\<exists>T'. tab_H q T = Inr T' \<and> wf_tableau T' \<and> t_n T' = t_n T \<and>
           (\<forall>i j. i < 2 * t_n T + 1 \<longrightarrow> j < 2 * t_n T + 1 \<longrightarrow> symplectic T' i j = symplectic T i j)"
proof -
  let ?xs' = "set_col (t_xs T) q (col (t_zs T) q)"
  let ?zs' = "set_col (t_zs T) q (col (t_xs T) q)"
  let ?T' = "T\<lparr> t_xs := ?xs', t_zs := ?zs',
                 t_rs := xor_vec (t_rs T) (and_vec (col ?xs' q) (col ?zs' q)) \<rparr>"
  note L = wf_lengths[OF assms(1)]
  have res: "tab_H q T = Inr ?T'" using assms(2) by (simp add: tab_H_def Let_def)
  have wf': "wf_tableau ?T'"
    using assms by (simp add: wf_tableau_def list_all_length)
  have "symplectic ?T' i j = symplectic T i j" if ij: "i < 2 * t_n T + 1" "j < 2 * t_n T + 1" for i j
  proof (rule symp_cong)
    show "t_n ?T' = t_n T" by simp
    fix k assume "k < t_n T"
    then show "sterm ?T' i j k mod 2 = sterm T i j k mod 2"
      using ij L assms(2) by (simp add: sterm_def nth_update_if)
  qed
  then show ?thesis using res wf' by simp
qed

lemma tab_CNOT_ok:
  assumes "wf_tableau T" "q1 < t_n T" "q2 < t_n T" "q1 \<noteq> q2"
  shows "\<exists>T'. tab_CNOT q1 q2 T = Inr T' \<and> wf_tableau T' \<and> t_n T' = t_n T \<and>
           (\<forall>i j. i < 2 * t_n T + 1 \<longrightarrow> j < 2 * t_n T + 1 \<longrightarrow> symplectic T' i j = symplectic T i j)"
proof -
  let ?rs' = "xor_vec (t_rs T)
                (and_vec (and_vec (col (t_xs T) q1) (col (t_zs T) q2))
                         (not_vec (xor_vec (col (t_xs T) q2) (col (t_zs T) q1))))"
  let ?xs' = "set_col (t_xs T) q2 (xor_vec (col (t_xs T) q2) (col (t_xs T) q1))"
  let ?zs' = "set_col (t_zs T) q1 (xor_vec (col (t_zs T) q1) (col (t_zs T) q2))"
  let ?T' = "T\<lparr> t_rs := ?rs', t_xs := ?xs', t_zs := ?zs' \<rparr>"
  note L = wf_lengths[OF assms(1)]
  have res: "tab_CNOT q1 q2 T = Inr ?T'" using assms(2,3) by (simp add: tab_CNOT_def Let_def)
  have wf': "wf_tableau ?T'"
    using assms by (simp add: wf_tableau_def list_all_length)
  have "symplectic ?T' i j = symplectic T i j" if ij: "i < 2 * t_n T + 1" "j < 2 * t_n T + 1" for i j
  proof -
    have rest: "sterm ?T' i j k mod 2 = sterm T i j k mod 2"
      if "k < t_n T" "k \<noteq> q1" "k \<noteq> q2" for k
      using that ij L by (simp add: sterm_def nth_update_if)
    have pair: "(sterm ?T' i j q1 + sterm ?T' i j q2) mod 2 = (sterm T i j q1 + sterm T i j q2) mod 2"
      using ij L assms(2,3,4) by (simp add: sterm_def nth_update_if)
    show ?thesis
      unfolding symplectic_def using sum_list_two_cols[OF assms(2,3,4), of "sterm ?T' i j" "sterm T i j"] rest pair
      by simp
  qed
  then show ?thesis using res wf' by simp
qed

lemma symp_rel_refl: "wf_tableau T \<Longrightarrow> symp_rel T T"
  by (simp add: symp_rel_def)

lemma symp_rel_trans: "symp_rel T U \<Longrightarrow> symp_rel U V \<Longrightarrow> symp_rel T V"
  by (simp add: symp_rel_def)

lemma tab_CZ_ok:
  assumes "wf_tableau T" "q < t_n T" "r < t_n T" "q \<noteq> r"
  shows "\<exists>T'. tab_CZ q r T = Inr T' \<and> symp_rel T T'"
proof -
  from tab_H_ok[OF assms(1,3)] obtain T1 where
    1: "tab_H r T = Inr T1" "symp_rel T T1" unfolding symp_rel_def by blast
  then have w1: "wf_tableau T1" "q < t_n T1" "r < t_n T1" using assms by (simp_all add: symp_rel_def)
  from tab_CNOT_ok[OF w1 assms(4)] obtain T2 where
    2: "tab_CNOT q r T1 = Inr T2" "symp_rel T1 T2" unfolding symp_rel_def by blast
  then have w2: "wf_tableau T2" "r < t_n T2" using w1 by (simp_all add: symp_rel_def)
  from tab_H_ok[OF w2] obtain T3 where
    3: "tab_H r T2 = Inr T3" "symp_rel T2 T3" unfolding symp_rel_def by blast
  have "tab_CZ q r T = Inr T3" using 1 2 3 by (simp add: tab_CZ_def bind_def)
  moreover have "symp_rel T T3" using 1 2 3 symp_rel_trans by blast
  ultimately show ?thesis by blast
qed

lemma apply_tab_gate_ok:
  assumes "wf_tableau T" "gate_ok (t_n T) gt"
  shows "\<exists>T'. apply_tab_gate gt T = Inr T' \<and> symp_rel T T'"
proof (cases gt)
  case (TX q) then show ?thesis using tab_X_ok[of T q] assms by (auto simp: symp_rel_def)
next
  case (TY q) then show ?thesis using tab_Y_ok[of T q] assms by (auto simp: symp_rel_def)
next
  case (TZ q) then show ?thesis using tab_Z_ok[of T q] assms by (auto simp: symp_rel_def)
next
  case (TH q) then show ?thesis using tab_H_ok[of T q] assms by (auto simp: symp_rel_def)
next
  case (TS q) then show ?thesis using tab_S_ok[of T q] assms by (auto simp: symp_rel_def)
next
  case (TCNOT q r) then show ?thesis using tab_CNOT_ok[of T q r] assms by (auto simp: symp_rel_def)
next
  case (TCZ q r) then show ?thesis using tab_CZ_ok[of T q r] assms by simp
qed

lemma apply_tab_gates_ok:
  assumes "wf_tableau T" "\<forall>gt\<in>set gs. gate_ok (t_n T) gt"
  shows "\<exists>T'. apply_tab_gates gs T = Inr T' \<and> symp_rel T T'"
  using assms
proof (induction gs arbitrary: T)
  case Nil
  then show ?case by (simp add: symp_rel_refl)
next
  case (Cons gt gs)
  from apply_tab_gate_ok[of T gt] Cons.prems obtain T1 where
    1: "apply_tab_gate gt T = Inr T1" "symp_rel T T1" by auto
  then have "wf_tableau T1" "\<forall>gt\<in>set gs. gate_ok (t_n T1) gt"
    using Cons.prems by (simp_all add: symp_rel_def)
  from Cons.IH[OF this] obtain T' where
    2: "apply_tab_gates gs T1 = Inr T'" "symp_rel T1 T'" by blast
  have "apply_tab_gates (gt # gs) T = Inr T'" using 1 2 by (simp add: bind_def)
  then show ?case using 1 2 symp_rel_trans by blast
qed

lemma bits_length: "s < 2 ^ n \<Longrightarrow> length (bits s) \<le> n"
proof (induction n arbitrary: s)
  case 0
  then show ?case by (simp add: bits.simps)
next
  case (Suc n)
  show ?case
  proof (cases "s > 0")
    case True
    have "s div 2 < 2 ^ n" using Suc.prems by simp
    then have "length (bits (s div 2)) \<le> n" by (rule Suc.IH)
    then show ?thesis using True by (subst bits.simps) simp
  next
    case False
    then show ?thesis by (subst bits.simps) simp
  qed
qed

lemma init_rs_ok:
  assumes "k + length bs \<le> 2 * n" "length r = 2 * n + 1"
  shows "\<exists>r'. init_rs n (enumerate k bs) r = Inr r' \<and> length r' = 2 * n + 1"
  using assms
proof (induction bs arbitrary: k r)
  case Nil
  then show ?case by simp
next
  case (Cons b bs)
  have idx: "py_index (length r) (2 * int n - int k - 1) = Inr (2 * n - k - 1)"
    using Cons.prems by (auto simp: py_index_def)
  have "\<exists>r'. init_rs n (enumerate (Suc k) bs) (r[2 * n - k - 1 := b]) = Inr r' \<and> length r' = 2 * n + 1"
    using Cons.prems by (intro Cons.IH) simp_all
  then show ?case using idx by (simp add: bind_def)
qed

lemma eye_nth: "i < n \<Longrightarrow> k < n \<Longrightarrow> eye n ! i ! k = (i = k)"
  by (simp add: eye_def)

lemma tableau_init_ok:
  assumes "s < 2 ^ n"
  shows "\<exists>T. tableau_init n s = Inr T \<and> wf_tableau T \<and> t_n T = n \<and>
           t_xs T = eye n @ zeros (n + 1) n \<and>
           t_zs T = zeros n n @ eye n @ zeros 1 n"
proof -
  have "length (bits s) \<le> n" using assms by (rule bits_length)
  then have "0 + length (bits s) \<le> 2 * n" by simp
  from init_rs_ok[OF this, of "replicate (2 * n + 1) False"] obtain r' where
    r: "init_rs n (enumerate 0 (bits s)) (replicate (2 * n + 1) False) = Inr r'"
       "length r' = 2 * n + 1" by auto
  let ?T = "\<lparr> t_n = n, t_xs = eye n @ zeros (n + 1) n,
              t_zs = zeros n n @ eye n @ zeros 1 n, t_rs = r' \<rparr>"
  have "tableau_init n s = Inr ?T" using r by (simp add: tableau_init_def bind_def)
  moreover have "wf_tableau ?T"
    using r(2) by (auto simp: wf_tableau_def eye_def zeros_def list_all_iff)
  ultimately show ?thesis by simp
qed

lemma length_eye [simp]: "length (eye n) = n"
  by (simp add: eye_def)

lemma length_zeros [simp]: "length (zeros m n) = m"
  by (simp add: zeros_def)

lemma zeros_nth: "i < m \<Longrightarrow> k < n \<Longrightarrow> zeros m n ! i ! k = False"
  by (simp add: zeros_def)

lemma sum_list_delta:
  "sum_list (map (\<lambda>k. of_bool (i = k \<and> j = k)) [0..<n]) = (if i = j \<and> i < n then 1 else (0::nat))"
proof -
  have "sum_list (map (\<lambda>k. of_bool (i = k \<and> j = k)) [0..<n])
        = (\<Sum>k\<in>{0..<n}. if k = i then (of_bool (j = i) :: nat) else 0)"
    unfolding interv_sum_list_conv_sum_set_nat by (intro sum.cong) auto
  also have "\<dots> = (if i \<in> {0..<n} then of_bool (j = i) else 0)"
    by (simp only: sum.delta finite_atLeastLessThan)
  finally show ?thesis by auto
qed

lemma init_symp:
  assumes T: "t_n T = n" "t_xs T = eye n @ zeros (n + 1) n" "t_zs T = zeros n n @ eye n @ zeros 1 n"
    and ij: "i < n" "j < n"
  shows "symplectic T (n + i) (n + j) = 0" "symplectic T i j = 0" "symplectic T i (n + j) = (if i = j then 1 else 0)"
proof -
  have x_lo: "t_xs T ! a ! k = (a = k)" if "a < n" "k < n" for a k
    using that by (simp add: T nth_append eye_nth)
  have x_hi: "t_xs T ! (n + a) ! k = False" if "a < n" "k < n" for a k
    using that by (simp add: T nth_append zeros_nth)
  have z_lo: "t_zs T ! a ! k = False" if "a < n" "k < n" for a k
    using that by (simp add: T nth_append zeros_nth)
  have z_hi: "t_zs T ! (n + a) ! k = (a = k)" if "a < n" "k < n" for a k
    using that by (simp add: T nth_append eye_nth)
  have e1: "map (sterm T (n + i) (n + j)) [0..<n] = map (\<lambda>k. 0) [0..<n]"
    using ij by (intro map_cong) (simp_all add: sterm_def x_hi)
  show "symplectic T (n + i) (n + j) = 0" unfolding symplectic_def T(1) e1 by simp
  have e2: "map (sterm T i j) [0..<n] = map (\<lambda>k. 0) [0..<n]"
    using ij by (intro map_cong) (simp_all add: sterm_def z_lo)
  show "symplectic T i j = 0" unfolding symplectic_def T(1) e2 by simp
  have e3: "map (sterm T i (n + j)) [0..<n] = map (\<lambda>k. of_bool (i = k \<and> j = k)) [0..<n]"
    using ij by (intro map_cong) (auto simp: sterm_def x_lo x_hi z_lo z_hi)
  show "symplectic T i (n + j) = (if i = j then 1 else 0)"
    unfolding symplectic_def T(1) e3 using ij by (simp add: sum_list_delta)
qed

text \<open>
  Claim C5, as amended. For every number of qubits \<open>n\<close>, every basis state below
  \<open>2^n\<close> and every finite sequence of tableau gates whose qubit indices are below \<open>n\<close>
  and, for \<open>CNOT\<close> and \<open>CZ\<close>, distinct: the sequence runs without error and the
  resulting rows satisfy the row invariants.
\<close>

theorem row_invariants_after_gates:
  assumes "initial_state < 2 ^ n" and "\<forall>gt\<in>set gs. gate_ok n gt"
  shows "\<exists>T. run_from n initial_state gs = Inr T \<and> t_n T = n \<and> row_invariants T"
proof -
  from tableau_init_ok[OF assms(1)] obtain T0 where
    T0: "tableau_init n initial_state = Inr T0" "wf_tableau T0" "t_n T0 = n"
        "t_xs T0 = eye n @ zeros (n + 1) n" "t_zs T0 = zeros n n @ eye n @ zeros 1 n"
    by blast
  from apply_tab_gates_ok[of T0 gs] T0 assms(2) obtain T where
    T: "apply_tab_gates gs T0 = Inr T" "symp_rel T0 T" by auto
  have nT: "t_n T = n" using T(2) T0(3) by (simp add: symp_rel_def)
  have eq: "symplectic T i j = symplectic T0 i j" if "i < 2 * n + 1" "j < 2 * n + 1" for i j
    using T(2) T0(3) that by (simp add: symp_rel_def)
  have "row_invariants T"
    unfolding row_invariants_def nT
  proof (intro allI impI)
    fix i j assume ij: "i < n" "j < n"
    have "symplectic T (n + i) (n + j) = 0" "symplectic T i j = 0" "symplectic T i (n + j) = (if i = j then 1 else 0)"
      using ij eq init_symp[OF T0(3,4,5) ij] by simp_all
    then show "(i \<noteq> j \<longrightarrow> symplectic T (n + i) (n + j) = 0) \<and> (i \<noteq> j \<longrightarrow> symplectic T i j = 0) \<and>
               symplectic T i (n + j) = (if i = j then 1 else 0)" by simp
  qed
  moreover have "run_from n initial_state gs = Inr T"
    using T0(1) T(1) by (simp add: run_from_def bind_def)
  ultimately show ?thesis using nT by blast
qed

text \<open>
  The claim as stated, for any qubit indices, fails: on one qubit \<open>_CNOT(0, 0)\<close> clears
  column 0 of \<open>xs\<close> and of \<open>zs\<close>, and the destabilizer no longer anticommutes with
  its stabilizer.
\<close>

theorem row_invariants_counterexample:
  "run_from 1 0 [TCNOT 0 0] = Inr tab_collapsed \<and> symplectic tab_collapsed 0 1 = 0 \<and>
   \<not> row_invariants tab_collapsed"
proof -
  have 1: "run_from 1 0 [TCNOT 0 0] = Inr tab_collapsed"
    by (simp add: run_from_def tableau_init_def bits.simps bind_def eye_def zeros_def
        tab_CNOT_def col_def set_col_def xor_vec_def and_vec_def not_vec_def tab_collapsed_def
        numeral_3_eq_3)
  have 2: "symplectic tab_collapsed 0 1 = 0"
    by (simp add: symplectic_def sterm_def tab_collapsed_def)
  have "symplectic tab_collapsed 0 (t_n tab_collapsed + 0) \<noteq> (if (0::nat) = 0 then 1 else 0)"
    using 2 by (simp add: tab_collapsed_def)
  then have "\<not> row_invariants tab_collapsed"
    unfolding row_invariants_def by (metis (no_types) One_nat_def less_one tab_collapsed_def tableau.select_convs(1))
  then show ?thesis using 1 2 by simp
qed

theorem row_invariants_after_gates_witness:
  "\<exists>T. run_from 2 1 [TH 0, TCNOT 0 1, TS 1, TCZ 1 0, TY 0] = Inr T \<and> t_n T = 2 \<and>
       symplectic T 0 2 = 1 \<and> symplectic T 2 3 = 0"
proof -
  have h1: "(1::nat) < 2 ^ 2" by simp
  have h2: "\<forall>gt\<in>set [TH 0, TCNOT 0 1, TS 1, TCZ 1 0, TY 0]. gate_ok 2 gt" by simp
  from row_invariants_after_gates[OF h1 h2] obtain T where
    T: "run_from 2 1 [TH 0, TCNOT 0 1, TS 1, TCZ 1 0, TY 0] = Inr T" "t_n T = 2" "row_invariants T"
    by blast
  have a: "0 < t_n T" "1 < t_n T" using T(2) by simp_all
  note r00 = T(3)[unfolded row_invariants_def, rule_format, OF a(1) a(1)]
  note r01 = T(3)[unfolded row_invariants_def, rule_format, OF a(1) a(2)]
  have "symplectic T 0 2 = 1" using r00 T(2) by simp
  moreover have "symplectic T 2 3 = 0" using r01 T(2) by (simp add: numeral_3_eq_3)
  ultimately show ?thesis using T by auto
qed


section \<open>Evaluation of the CH form and of the driver on concrete circuits\<close>

lemmas vec_defs = xor_vec_def and_vec_def or_vec_def not_vec_def col_def set_col_def
  count_true_def where_true_def eye_def zeros_def

lemma ch_init_1_0: "ch_init (Suc 0) 0 = Inr ch_zero"
  by (simp add: ch_init_def bits.simps ch_zero_def vec_defs)

lemma ch_H_zero: "ch_H 0 ch_zero = Inr ch_plus"
  by (simp add: ch_H_def ch_zero_def ch_plus_def update_sum_def H_decompose_def bind_def vec_defs Let_def)

lemma powr_half: "2 powr (- real k / 2) = 1 / sqrt 2 ^ k"
proof -
  have "2 powr (- real k / 2) = (2 powr (1 / 2)) powr (- real k)"
    by (simp add: powr_powr)
  also have "\<dots> = sqrt 2 powr (- real k)" by (simp add: powr_half_sqrt)
  also have "\<dots> = 1 / sqrt 2 ^ k" by (simp add: powr_minus powr_realpow field_simps)
  finally show ?thesis .
qed

lemma inner_product_alt:
  "inner_product_of_state_and_x C x =
     (let y = big_endian_int_to_bits x (ch_n C);
          (u, mu) = inner_loop C y
      in ch_omega C
         * (1 / complex_of_real (sqrt 2) ^ count_true (ch_v C))
         * \<i> ^ nat mu
         * (- 1) ^ count_true (and_vec (and_vec (ch_v C) u) (ch_s C))
         * of_bool (list_all (\<lambda>b. b) (or_vec (ch_v C) (map2 (\<lambda>a b. a = b) u (ch_s C)))))"
  unfolding inner_product_of_state_and_x_def powr_half by (simp add: Let_def split_def)

lemmas eval_simps = bind_def vec_defs Let_def upt_conv_Cons numeral_2_eq_2

lemma replicate_2: "replicate 2 x = [x, x]"
  by (simp add: numeral_2_eq_2)

lemma map_upt_4: "map f [0..<4] = [f 0, f 1, f 2, f 3]"
  by (simp add: numeral_eq_Suc upt_conv_Cons)

lemma run_H: "bind (ch_init (Suc 0) 0) (ch_H 0) = Inr ch_plus"
  by (simp add: ch_init_1_0 ch_H_zero bind_def)

lemma run_bell: "bind (ch_init 2 0) (\<lambda>C. bind (ch_H 0 C) (ch_CNOT 0 (Suc 0))) = Inr ch_bell"
  by (simp add: ch_init_def bits.simps ch_H_def ch_CNOT_def update_sum_def H_decompose_def
      ch_bell_def bind_def vec_defs Let_def upt_conv_Cons replicate_2)

lemma vec_plus: "to_state_vector ch_plus = [1 / sqrt 2, 1 / sqrt 2]"
  by (simp add: to_state_vector_def inner_product_alt inner_loop_def
      big_endian_int_to_bits_def ch_plus_def eval_simps)

lemma vec_bell: "to_state_vector ch_bell = [1 / sqrt 2, 0, 0, 1 / sqrt 2]"
  by (simp add: to_state_vector_def map_upt_4 inner_product_alt inner_loop_def
      big_endian_int_to_bits_def ch_bell_def bind_def vec_defs Let_def upt_conv_Cons replicate_2)

text \<open>
  Claim C7. On one qubit initialised to basis state 0, \<open>H(0)\<close> gives the state vector
  \<open>[1/sqrt 2, 1/sqrt 2]\<close>; on two qubits initialised to basis state 0, \<open>H(0)\<close> then
  \<open>CNOT(0, 1)\<close> gives the Bell state \<open>[1/sqrt 2, 0, 0, 1/sqrt 2]\<close>. With the exact
  arithmetic of the model \<open>to_state_vector\<close> returns these vectors themselves, hence
  within the tolerance \<open>1e-8\<close> componentwise.
\<close>

theorem amplitude_round_trip:
  "bind (ch_init 1 0) (ch_H 0) = Inr ch_plus \<and>
   to_state_vector ch_plus = [1 / sqrt 2, 1 / sqrt 2] \<and>
   close_to (1 / 10 ^ 8) (to_state_vector ch_plus) [1 / sqrt 2, 1 / sqrt 2] \<and>
   bind (ch_init 2 0) (\<lambda>C. bind (ch_H 0 C) (ch_CNOT 0 1)) = Inr ch_bell \<and>
   to_state_vector ch_bell = [1 / sqrt 2, 0, 0, 1 / sqrt 2] \<and>
   close_to (1 / 10 ^ 8) (to_state_vector ch_bell) [1 / sqrt 2, 0, 0, 1 / sqrt 2]"
  by (simp add: run_H run_bell vec_plus vec_bell close_to_def)

text \<open>
  Claim C2 says that an operation which is none of the seven gates and no measurement
  raises, and that no operation is silently skipped. The loop of \<open>_base_iterator\<close>
  does skip one: an operation with no unitary that is not a measurement (a channel such
  as a reset) passes both tests and the loop goes on, with the state, the measurements
  and the generator as they were.
\<close>

theorem channel_operation_skipped:
  "run_moment (\<lparr> op_gate = Channel nm, op_qubits = qs \<rparr> # ops) ms st gen = run_moment ops ms st gen \<and>
   run_moment [\<lparr> op_gate = Channel ''reset'', op_qubits = [0] \<rparr>] Map.empty st gen
     = Inr (Map.empty, st, gen)"
  by simp

lemma driver_H:
  "base_iterator [[\<lparr> op_gate = GateH, op_qubits = [0] \<rparr>]] [0] 0 gen
     = Inr ([\<lparr> step_measurements = Map.empty, step_state = st_plus \<rparr>], gen)"
  by (simp add: base_iterator_def clifford_state_init_def tableau_init_def ch_init_1_0 bits.simps
      apply_unitary_def apply1_def qubit_index_def tab_H_def ch_H_zero st_plus_def tab_plus_def
      eval_simps)

text \<open>
  Claim C6 says that \<open>sample(qubits, repetitions, seed)\<close> is a function of its
  arguments and the state. On the state after \<open>H\<close> on one qubit, which the driver
  reaches from the circuit \<open>[H(0)]\<close>, two calls with the same qubits, repetitions and
  seed return different arrays when the ambient generator differs: the seed is never
  read.
\<close>

theorem sample_ignores_seed:
  "base_iterator [[\<lparr> op_gate = GateH, op_qubits = [0] \<rparr>]] [0] 0 gen
     = Inr ([\<lparr> step_measurements = Map.empty, step_state = st_plus \<rparr>], gen) \<and>
   sample st_plus [0] 1 (Some 7) (\<lambda>_. False) = Inr ([[False]], \<lambda>_. False) \<and>
   sample st_plus [0] 1 (Some 7) (\<lambda>_. True) = Inr ([[True]], \<lambda>_. True)"
  by (simp add: driver_H sample_def perform_measurement_def st_plus_def tab_plus_def ch_plus_def
      tab_measure_def find_p_def randint2_def measure_anticommuting_def rowsum_def rowsum_g_def
      project_Z_def update_sum_def H_decompose_def eval_simps)


section \<open>The CH form never fails on well-formed states\<close>

lemma wf_ch_lengths:
  assumes "wf_ch C"
  shows "length (ch_G C) = ch_n C" "length (ch_F C) = ch_n C" "length (ch_M C) = ch_n C"
    "length (ch_gamma C) = ch_n C" "length (ch_v C) = ch_n C" "length (ch_s C) = ch_n C"
    "i < ch_n C \<Longrightarrow> length (ch_G C ! i) = ch_n C"
    "i < ch_n C \<Longrightarrow> length (ch_F C ! i) = ch_n C"
    "i < ch_n C \<Longrightarrow> length (ch_M C ! i) = ch_n C"
  using assms by (auto simp: wf_ch_def list_all_length)

lemma wf_S_right: "wf_ch C \<Longrightarrow> wf_ch (ch_S_right q C) \<and> ch_n (ch_S_right q C) = ch_n C"
  by (simp add: wf_ch_def ch_S_right_def list_all_length)

lemma wf_CZ_right: "wf_ch C \<Longrightarrow> wf_ch (ch_CZ_right q r C) \<and> ch_n (ch_CZ_right q r C) = ch_n C"
  by (simp add: wf_ch_def ch_CZ_right_def list_all_length Let_def)

lemma wf_CNOT_right: "wf_ch C \<Longrightarrow> wf_ch (ch_CNOT_right q r C) \<and> ch_n (ch_CNOT_right q r C) = ch_n C"
  by (simp add: wf_ch_def ch_CNOT_right_def list_all_length)

lemma ch_right_v [simp]:
  "ch_v (ch_S_right q C) = ch_v C" "ch_v (ch_CZ_right q r C) = ch_v C"
  "ch_v (ch_CNOT_right q r C) = ch_v C"
  by (simp_all add: ch_S_right_def ch_CZ_right_def ch_CNOT_right_def Let_def)

lemma wf_fold:
  assumes "\<And>i D. wf_ch D \<Longrightarrow> wf_ch (f i D) \<and> ch_n (f i D) = ch_n D \<and> ch_v (f i D) = ch_v D"
    and "wf_ch C"
  shows "wf_ch (fold f l C) \<and> ch_n (fold f l C) = ch_n C \<and> ch_v (fold f l C) = ch_v C"
  using assms(2)
proof (induction l arbitrary: C)
  case Nil
  then show ?case by simp
next
  case (Cons a l)
  from assms(1)[OF Cons.prems] have 1: "wf_ch (f a C)" "ch_n (f a C) = ch_n C" "ch_v (f a C) = ch_v C"
    by auto
  from Cons.IH[OF 1(1)] show ?case using 1 by simp
qed

lemma H_decompose_ok: "y \<noteq> z \<Longrightarrow> \<exists>r. H_decompose v y z delta = Inr r"
  by (auto simp: H_decompose_def Let_def)

lemma where_true_set: "set (where_true a) = {i. i < length a \<and> a ! i}"
  by (auto simp: where_true_def)

lemma where_true_hd: "where_true a \<noteq> [] \<Longrightarrow> where_true a ! 0 < length a"
proof -
  assume "where_true a \<noteq> []"
  then have "where_true a ! 0 \<in> set (where_true a)" by (simp add: nth_mem)
  then show ?thesis by (simp add: where_true_set)
qed

lemma update_sum_unfold:
  "update_sum t u delta alpha C =
     (if t = u then
        Inr (C\<lparr> ch_s := t,
                ch_omega := ch_omega C *
                  (complex_of_real (1 / sqrt 2) * (- 1) ^ nat alpha * (1 + \<i> ^ nat delta)) \<rparr>)
      else bind (choose_pivot t u C) (\<lambda>(q, C3). finish_sum t u delta alpha q C3))"
  unfolding update_sum_def choose_pivot_def finish_sum_def Let_def by (rule refl)

lemma choose_pivot_ok:
  assumes "wf_ch C" "length t = ch_n C" "length u = ch_n C" "t \<noteq> u"
  shows "\<exists>q C3. choose_pivot t u C = Inr (q, C3) \<and> q < ch_n C \<and> wf_ch C3 \<and>
           ch_n C3 = ch_n C \<and> ch_v C3 = ch_v C"
proof -
  let ?n = "ch_n C"
  let ?d = "xor_vec t u"
  let ?set0 = "where_true (and_vec (not_vec (ch_v C)) ?d)"
  let ?set1 = "where_true (and_vec (ch_v C) ?d)"
  note L = wf_ch_lengths[OF assms(1)]
  have "\<exists>i<?n. t ! i \<noteq> u ! i"
  proof (rule ccontr)
    assume "\<not> (\<exists>i<?n. t ! i \<noteq> u ! i)"
    then have "t = u" using assms(2,3) by (intro nth_equalityI) auto
    then show False using assms(4) by simp
  qed
  then obtain i where i: "i < ?n" "t ! i \<noteq> u ! i" by blast
  have nonempty: "?set0 \<noteq> [] \<or> ?set1 \<noteq> []"
  proof (cases "ch_v C ! i")
    case True
    then have "i \<in> set ?set1" using i assms(2,3) L by (simp add: where_true_set)
    then show ?thesis by auto
  next
    case False
    then have "i \<in> set ?set0" using i assms(2,3) L by (simp add: where_true_set)
    then show ?thesis by auto
  qed
  show ?thesis
  proof (cases "length ?set0 > 0")
    case True
    let ?q = "?set0 ! 0"
    let ?C1 = "fold (\<lambda>i D. if i \<noteq> ?q then ch_CNOT_right ?q i D else D) ?set0 C"
    let ?C2 = "fold (\<lambda>i D. ch_CZ_right ?q i D) ?set1 ?C1"
    have q: "?q < ?n" using where_true_hd[of "and_vec (not_vec (ch_v C)) ?d"] True assms(2,3) L by simp
    have 1: "wf_ch ?C1 \<and> ch_n ?C1 = ?n \<and> ch_v ?C1 = ch_v C"
      by (rule wf_fold) (auto simp: wf_CNOT_right assms(1))
    then have 2: "wf_ch ?C2 \<and> ch_n ?C2 = ch_n ?C1 \<and> ch_v ?C2 = ch_v ?C1"
      by (intro wf_fold) (auto simp: wf_CZ_right)
    have "choose_pivot t u C = Inr (?q, ?C2)" using True by (simp add: choose_pivot_def Let_def)
    then show ?thesis using q 1 2 by simp
  next
    case False
    then have s1: "length ?set1 > 0" using nonempty by simp
    let ?q = "?set1 ! 0"
    let ?C1 = "fold (\<lambda>i D. if i \<noteq> ?q then ch_CNOT_right i ?q D else D) ?set1 C"
    have q: "?q < ?n" using where_true_hd[of "and_vec (ch_v C) ?d"] s1 assms(2,3) L by simp
    have 1: "wf_ch ?C1 \<and> ch_n ?C1 = ?n \<and> ch_v ?C1 = ch_v C"
      by (rule wf_fold) (auto simp: wf_CNOT_right assms(1))
    have "choose_pivot t u C = Inr (?q, ?C1)" using False s1 by (simp add: choose_pivot_def Let_def)
    then show ?thesis using q 1 by simp
  qed
qed

lemma finish_sum_ok:
  assumes "wf_ch C3" "length t = ch_n C3" "length u = ch_n C3" "q < ch_n C3"
  shows "\<exists>C'. finish_sum t u delta alpha q C3 = Inr C' \<and> wf_ch C' \<and> ch_n C' = ch_n C3"
proof -
  let ?n = "ch_n C3"
  define e where "e = (replicate ?n False)[q := True]"
  define y where "y = (if t ! q then xor_vec u e else t)"
  define z where "z = (if t ! q then u else xor_vec t e)"
  have len_e: "length e = ?n" by (simp add: e_def)
  have eq: "e ! q = True" using assms(4) by (simp add: e_def)
  have yz: "y ! q \<noteq> z ! q" using assms len_e eq by (simp add: y_def z_def)
  have len_y: "length y = ?n" using assms(2,3) len_e by (simp add: y_def)
  from H_decompose_ok[OF yz] obtain omega a b c where
    hd: "H_decompose (ch_v C3 ! q) (y ! q) (z ! q) delta = Inr (omega, a, b, c)"
    by (metis prod_cases4)
  define C4 where "C4 = C3\<lparr> ch_s := y[q := c], ch_omega := ch_omega C3 * ((- 1) ^ nat alpha * omega) \<rparr>"
  define C5 where "C5 = (if a then ch_S_right q C4 else C4)"
  define C6 where "C6 = C5\<lparr> ch_v := (ch_v C5)[q := (ch_v C5 ! q \<noteq> (b \<noteq> ch_v C5 ! q))] \<rparr>"
  have wf4: "wf_ch C4 \<and> ch_n C4 = ?n" using assms(1) len_y by (auto simp: C4_def wf_ch_def)
  have wf5: "wf_ch C5 \<and> ch_n C5 = ?n" using wf4 wf_S_right[of C4 q] by (simp add: C5_def)
  have wf6: "wf_ch C6 \<and> ch_n C6 = ?n" using wf5 by (auto simp: C6_def wf_ch_def)
  have yz_pair: "(if t ! q then (xor_vec u e, u) else (t, xor_vec t e)) = (y, z)"
    by (simp add: y_def z_def)
  have "finish_sum t u delta alpha q C3 = Inr C6"
    unfolding finish_sum_def Let_def e_def[symmetric] yz_pair
    by (simp add: hd bind_def C6_def C5_def C4_def)
  then show ?thesis using wf6 by simp
qed

lemma update_sum_ok:
  assumes "wf_ch C" "length t = ch_n C" "length u = ch_n C"
  shows "\<exists>C'. update_sum t u delta alpha C = Inr C' \<and> wf_ch C' \<and> ch_n C' = ch_n C"
proof (cases "t = u")
  case True
  then show ?thesis using assms by (auto simp: update_sum_unfold wf_ch_def)
next
  case False
  from choose_pivot_ok[OF assms False] obtain q C3 where
    p: "choose_pivot t u C = Inr (q, C3)" "q < ch_n C" "wf_ch C3" "ch_n C3 = ch_n C" by blast
  from finish_sum_ok[of C3 t u q delta alpha] p assms obtain C' where
    f: "finish_sum t u delta alpha q C3 = Inr C'" "wf_ch C'" "ch_n C' = ch_n C3" by auto
  have "update_sum t u delta alpha C = Inr C'"
    using False p(1) f(1) by (simp add: update_sum_unfold bind_def)
  then show ?thesis using f p by simp
qed

lemma res_ok_bind:
  assumes "res_ok n b r" and "\<And>C. b \<Longrightarrow> wf_ch C \<Longrightarrow> ch_n C = n \<Longrightarrow> res_ok n b (f C)"
  shows "res_ok n b (bind r f)"
  using assms by (auto simp: res_ok_def bind_def split: if_splits)

lemma ch_S_ok: "wf_ch C \<Longrightarrow> ch_n C = n \<Longrightarrow> res_ok n (q < n) (ch_S q C)"
  by (auto simp: res_ok_def ch_S_def wf_ch_def list_all_length nth_update_if)

lemma ch_Z_ok: "wf_ch C \<Longrightarrow> ch_n C = n \<Longrightarrow> res_ok n (q < n) (ch_Z q C)"
  unfolding ch_Z_def by (rule res_ok_bind) (rule ch_S_ok; assumption)+

lemma ch_CZ_ok: "wf_ch C \<Longrightarrow> ch_n C = n \<Longrightarrow> res_ok n (q < n \<and> r < n) (ch_CZ q r C)"
  by (auto simp: res_ok_def ch_CZ_def Let_def wf_ch_def list_all_length nth_update_if)

lemma ch_CNOT_ok: "wf_ch C \<Longrightarrow> ch_n C = n \<Longrightarrow> res_ok n (q < n \<and> r < n) (ch_CNOT q r C)"
  by (auto simp: res_ok_def ch_CNOT_def Let_def wf_ch_def list_all_length nth_update_if)

lemma ch_H_ok: "wf_ch C \<Longrightarrow> ch_n C = n \<Longrightarrow> res_ok n (q < n) (ch_H q C)"
proof (cases "q < ch_n C")
  case True
  assume wf: "wf_ch C" and n: "ch_n C = n"
  note L = wf_ch_lengths[OF wf]
  let ?t = "xor_vec (ch_s C) (and_vec (ch_G C ! q) (ch_v C))"
  let ?u = "xor_vec (xor_vec (ch_s C) (and_vec (ch_F C ! q) (not_vec (ch_v C))))
                            (and_vec (ch_M C ! q) (ch_v C))"
  have "length ?t = ch_n C" "length ?u = ch_n C" using L True by simp_all
  from update_sum_ok[OF wf this] show ?thesis
    using True n by (simp add: res_ok_def ch_H_def Let_def)
next
  case False
  assume "ch_n C = n"
  then show ?thesis using False by (simp add: res_ok_def ch_H_def)
qed

lemma ch_X_ok: "wf_ch C \<Longrightarrow> ch_n C = n \<Longrightarrow> res_ok n (q < n) (ch_X q C)"
  unfolding ch_X_def
  by (intro res_ok_bind) ((rule ch_H_ok ch_Z_ok; assumption)+)

lemma ch_Y_ok: "wf_ch C \<Longrightarrow> ch_n C = n \<Longrightarrow> res_ok n (q < n) (ch_Y q C)"
proof -
  assume wf: "wf_ch C" and n: "ch_n C = n"
  show ?thesis
    unfolding ch_Y_def
  proof (intro res_ok_bind)
    show "res_ok n (q < n) (ch_Z q C)" using wf n by (rule ch_Z_ok)
  next
    fix C1 assume "wf_ch C1" "ch_n C1 = n"
    then show "res_ok n (q < n) (ch_X q C1)" by (rule ch_X_ok)
  next
    fix C1 C2 assume "q < n" "wf_ch C2" "ch_n C2 = n"
    then show "res_ok n (q < n) (Inr (C2\<lparr> ch_omega := ch_omega C2 * \<i> \<rparr>))"
      by (auto simp: res_ok_def wf_ch_def)
  qed
qed

lemma project_Z_ok: "wf_ch C \<Longrightarrow> ch_n C = n \<Longrightarrow> res_ok n (q < n) (project_Z q z C)"
proof (cases "q < ch_n C")
  case True
  assume wf: "wf_ch C" and n: "ch_n C = n"
  note L = wf_ch_lengths[OF wf]
  let ?t = "ch_s C"
  let ?u = "xor_vec (and_vec (ch_G C ! q) (ch_v C)) (ch_s C)"
  let ?C1 = "if ?t = ?u then C\<lparr> ch_omega := ch_omega C / complex_of_real (sqrt 2) \<rparr> else C"
  have wf1: "wf_ch ?C1" "ch_n ?C1 = ch_n C" using wf by (auto simp: wf_ch_def)
  have "length ?t = ch_n ?C1" "length ?u = ch_n ?C1" using L True by simp_all
  from update_sum_ok[OF wf1(1) this] obtain C' where
    "update_sum ?t ?u ((2 * int (count_true (and_vec (and_vec (ch_G C ! q) (not_vec (ch_v C))) (ch_s C)))
                         + 2 * int z) mod 4) 0 ?C1 = Inr C'" "wf_ch C'" "ch_n C' = ch_n ?C1"
    by blast
  then show ?thesis
    using True n wf1(2) unfolding res_ok_def project_Z_def Let_def by auto
next
  case False
  assume "ch_n C = n"
  then show ?thesis using False by (simp add: res_ok_def project_Z_def)
qed

lemma apply_ch_op_ok: "wf_ch C \<Longrightarrow> ch_n C = n \<Longrightarrow> res_ok n (ch_op_ok n x) (apply_ch_op x C)"
  by (cases x) (simp_all add: ch_X_ok ch_Y_ok ch_Z_ok ch_H_ok ch_S_ok ch_CNOT_ok ch_CZ_ok project_Z_ok)

lemma res_ok_any: "res_ok n b r \<Longrightarrow> res_any n r"
  by (auto simp: res_ok_def res_any_def split: if_splits)

lemma res_any_bind:
  assumes "res_any n r" and "\<And>C. wf_ch C \<Longrightarrow> ch_n C = n \<Longrightarrow> res_any n (f C)"
  shows "res_any n (bind r f)"
proof (cases r)
  case (Inl e)
  then show ?thesis using assms(1) by (simp add: res_any_def bind_def)
next
  case (Inr D)
  then have "wf_ch D" "ch_n D = n" using assms(1) by (auto simp: res_any_def)
  then have "res_any n (f D)" by (rule assms(2))
  then show ?thesis using Inr by (simp add: bind_def)
qed

lemma apply_ch_ops_any: "wf_ch C \<Longrightarrow> ch_n C = n \<Longrightarrow> res_any n (apply_ch_ops ops C)"
proof (induction ops arbitrary: C)
  case Nil
  then show ?case by (simp add: res_any_def)
next
  case (Cons x ops)
  show ?case
    unfolding apply_ch_ops.simps
  proof (rule res_any_bind)
    show "res_any n (apply_ch_op x C)" using apply_ch_op_ok[OF Cons.prems] by (rule res_ok_any)
  next
    fix D assume "wf_ch D" "ch_n D = n"
    then show "res_any n (apply_ch_ops ops D)" by (rule Cons.IH)
  qed
qed

lemma apply_ch_ops_ok:
  "wf_ch C \<Longrightarrow> ch_n C = n \<Longrightarrow> list_all (ch_op_ok n) ops \<Longrightarrow>
   \<exists>C'. apply_ch_ops ops C = Inr C' \<and> wf_ch C' \<and> ch_n C' = n"
proof (induction ops arbitrary: C)
  case Nil
  then show ?case by simp
next
  case (Cons x ops)
  from apply_ch_op_ok[OF Cons.prems(1,2), of x] Cons.prems(3) obtain C1 where
    1: "apply_ch_op x C = Inr C1" "wf_ch C1" "ch_n C1 = n" by (auto simp: res_ok_def)
  from Cons.IH[OF 1(2,3)] Cons.prems(3) obtain C' where
    "apply_ch_ops ops C1 = Inr C'" "wf_ch C'" "ch_n C' = n" by auto
  then show ?case using 1 by (simp add: bind_def)
qed

lemma py_index_cases: "(\<exists>q<len. py_index len i = Inr q) \<or> py_index len i = Inl IndexError"
  by (auto simp: py_index_def)

lemma ch_init_loop_any:
  "wf_ch C \<Longrightarrow> ch_n C = n \<Longrightarrow> res_any n (ch_init_loop n l C)"
proof (induction l arbitrary: C)
  case Nil
  then show ?case by (simp add: res_any_def)
next
  case (Cons a l)
  obtain i val where a: "a = (i, val)" by (cases a)
  show ?case
  proof (cases val)
    case False
    then show ?thesis using a Cons by simp
  next
    case True
    from py_index_cases[of n "int n - int i - 1"] show ?thesis
    proof
      assume "\<exists>q<n. py_index n (int n - int i - 1) = Inr q"
      then obtain q where q: "q < n" "py_index n (int n - int i - 1) = Inr q" by blast
      have "res_any n (bind (ch_X q C) (ch_init_loop n l))"
      proof (rule res_any_bind)
        show "res_any n (ch_X q C)" using ch_X_ok[OF Cons.prems] by (rule res_ok_any)
      next
        fix D assume "wf_ch D" "ch_n D = n"
        then show "res_any n (ch_init_loop n l D)" by (rule Cons.IH)
      qed
      then show ?thesis using a True q by (simp add: bind_def)
    next
      assume "py_index n (int n - int i - 1) = Inl IndexError"
      then show ?thesis using a True by (simp add: bind_def res_any_def)
    qed
  qed
qed

lemma ch_init_loop_ok:
  "wf_ch C \<Longrightarrow> ch_n C = n \<Longrightarrow> k + length bs \<le> n \<Longrightarrow>
   \<exists>C'. ch_init_loop n (enumerate k bs) C = Inr C' \<and> wf_ch C' \<and> ch_n C' = n"
proof (induction bs arbitrary: k C)
  case Nil
  then show ?case by simp
next
  case (Cons b bs)
  show ?case
  proof (cases b)
    case False
    then show ?thesis using Cons.IH[of C "Suc k"] Cons.prems by simp
  next
    case True
    have idx: "py_index n (int n - int k - 1) = Inr (n - k - 1)"
      using Cons.prems(3) by (auto simp: py_index_def)
    have "n - k - 1 < n" using Cons.prems(3) by simp
    with ch_X_ok[OF Cons.prems(1,2), of "n - k - 1"] obtain C1 where
      1: "ch_X (n - k - 1) C = Inr C1" "wf_ch C1" "ch_n C1 = n" by (auto simp: res_ok_def)
    from Cons.IH[OF 1(2,3), of "Suc k"] Cons.prems(3) obtain C' where
      "ch_init_loop n (enumerate (Suc k) bs) C1 = Inr C'" "wf_ch C'" "ch_n C' = n" by auto
    then show ?thesis using True idx 1 by (simp add: bind_def)
  qed
qed

lemma wf_ch_initial: "wf_ch (ch_initial n) \<and> ch_n (ch_initial n) = n"
  by (auto simp: wf_ch_def ch_initial_def eye_def zeros_def list_all_iff)

lemma ch_init_alt: "ch_init n s = ch_init_loop n (enumerate 0 (bits s)) (ch_initial n)"
  by (simp add: ch_init_def ch_initial_def)

lemma ch_init_any: "res_any n (ch_init n s)"
  unfolding ch_init_alt using wf_ch_initial[of n] by (intro ch_init_loop_any) auto

lemma ch_init_ok: "s < 2 ^ n \<Longrightarrow> \<exists>C'. ch_init n s = Inr C' \<and> wf_ch C' \<and> ch_n C' = n"
  unfolding ch_init_alt using wf_ch_initial[of n] bits_length[of s n]
  by (intro ch_init_loop_ok) auto

text \<open>
  Claim C9. The error branch \<open>y == z\<close> of \<open>_H_decompose\<close> is unreachable: from any
  initial state no sequence of gates and \<open>project_Z\<close> calls ends in the ValueError;
  \<open>_update_sum\<close> on a well-formed state, with \<open>t\<close> and \<open>u\<close> of length \<open>n\<close>, returns a
  state (for differing \<open>t\<close> and \<open>u\<close> the pivot column has \<open>y[q] \<noteq> z[q]\<close>, see
  \<open>finish_sum_ok\<close>); and with a basis state below \<open>2^n\<close> and indices in range the whole
  sequence returns a well-formed state.
\<close>

theorem value_error_unreachable:
  "run_ch n initial_state ops \<noteq> Inl (ValueError msg) \<and>
   (wf_ch C \<and> length t = ch_n C \<and> length u = ch_n C \<longrightarrow>
      (\<exists>C'. update_sum t u delta alpha C = Inr C')) \<and>
   (initial_state < 2 ^ n \<and> list_all (ch_op_ok n) ops \<longrightarrow>
      (\<exists>C'. run_ch n initial_state ops = Inr C' \<and> wf_ch C'))"
proof (intro conjI impI)
  have "res_any n (run_ch n initial_state ops)"
    unfolding run_ch_def
  proof (rule res_any_bind)
    show "res_any n (ch_init n initial_state)" by (rule ch_init_any)
  next
    fix D assume "wf_ch D" "ch_n D = n"
    then show "res_any n (apply_ch_ops ops D)" by (rule apply_ch_ops_any)
  qed
  then show "run_ch n initial_state ops \<noteq> Inl (ValueError msg)"
    by (auto simp: res_any_def)
next
  assume "wf_ch C \<and> length t = ch_n C \<and> length u = ch_n C"
  then show "\<exists>C'. update_sum t u delta alpha C = Inr C'"
    using update_sum_ok[of C t u delta alpha] by blast
next
  assume a: "initial_state < 2 ^ n \<and> list_all (ch_op_ok n) ops"
  from ch_init_ok[of initial_state n] a obtain C0 where
    0: "ch_init n initial_state = Inr C0" "wf_ch C0" "ch_n C0 = n" by blast
  from apply_ch_ops_ok[OF 0(2,3)] a obtain C' where
    "apply_ch_ops ops C0 = Inr C'" "wf_ch C'" by blast
  then show "\<exists>C'. run_ch n initial_state ops = Inr C' \<and> wf_ch C'"
    using 0(1) by (simp add: run_ch_def bind_def)
qed

theorem value_error_unreachable_witness:
  "wf_ch ch_plus \<and> (\<exists>C'. update_sum [False] [True] 0 0 ch_plus = Inr C') \<and>
   (\<exists>C'. run_ch 2 1 [OpH 0, OpCNOT 0 1, OpProject 1 1, OpY 0] = Inr C' \<and> wf_ch C')"
proof -
  have w: "wf_ch ch_plus \<and> length [False] = ch_n ch_plus \<and> length [True] = ch_n ch_plus"
    by (simp add: wf_ch_def ch_plus_def)
  have r: "(1::nat) < 2 ^ 2 \<and> list_all (ch_op_ok 2) [OpH 0, OpCNOT 0 1, OpProject 1 1, OpY 0]"
    by simp
  from value_error_unreachable[of 2 1 "[OpH 0, OpCNOT 0 1, OpProject 1 1, OpY 0]" "''x''"
      ch_plus "[False]" "[True]" 0 0] w r
  show ?thesis by blast
qed

lemma xor_vec_all_false:
  assumes "list_all (\<lambda>b. \<not> b) a" "length a = length s"
  shows "xor_vec a s = s"
  using assms by (intro nth_equalityI) (auto simp: list_all_length)

lemma csqrt2_sq: "complex_of_real (sqrt 2) * complex_of_real (sqrt 2) = 2"
proof -
  have "complex_of_real (sqrt 2) * complex_of_real (sqrt 2) = complex_of_real (sqrt 2 * sqrt 2)"
    by (simp only: of_real_mult)
  also have "sqrt 2 * sqrt 2 = (2::real)" by simp
  finally show ?thesis by simp
qed

lemma project_Z_equal_case:
  assumes "wf_ch C" "q < ch_n C" "list_all (\<lambda>b. \<not> b) (and_vec (ch_G C ! q) (ch_v C))"
  shows "project_Z q z C =
           Inr (C\<lparr> ch_omega := ch_omega C / complex_of_real (sqrt 2) *
                  (complex_of_real (1 / sqrt 2) *
                   (1 + \<i> ^ nat ((2 * int (count_true (and_vec (and_vec (ch_G C ! q) (not_vec (ch_v C))) (ch_s C)))
                         + 2 * int z) mod 4))) \<rparr>)"
proof -
  note L = wf_ch_lengths[OF assms(1)]
  have "length (and_vec (ch_G C ! q) (ch_v C)) = length (ch_s C)" using L assms(2) by simp
  then have u: "xor_vec (and_vec (ch_G C ! q) (ch_v C)) (ch_s C) = ch_s C"
    using assms(3) by (rule xor_vec_all_false[rotated])
  show ?thesis
    using assms(2) by (simp add: project_Z_def u update_sum_unfold Let_def)
qed

text \<open>
  Claim C10. When \<open>G[q,:] & v\<close> is all false (so \<open>t = u\<close> inside \<open>project_Z\<close>),
  \<open>project_Z(q, z)\<close> raises for neither \<open>z\<close>: for the \<open>z\<close> with the parity of
  \<open>G[q,:] & ~v & s\<close> the whole representation, \<open>omega\<close> included, is as before; for the
  other \<open>z\<close> only \<open>omega\<close> changes, to 0, and every amplitude is 0.
\<close>

theorem project_Z_deterministic:
  assumes "wf_ch C" and "q < ch_n C"
    and "list_all (\<lambda>b. \<not> b) (and_vec (ch_G C ! q) (ch_v C))"
  shows "project_Z q (count_true (and_vec (and_vec (ch_G C ! q) (not_vec (ch_v C))) (ch_s C)) mod 2) C
           = Inr C \<and>
         project_Z q (1 - count_true (and_vec (and_vec (ch_G C ! q) (not_vec (ch_v C))) (ch_s C)) mod 2) C
           = Inr (C\<lparr> ch_omega := 0 \<rparr>) \<and>
         to_state_vector (C\<lparr> ch_omega := 0 \<rparr>) = replicate (2 ^ ch_n C) 0"
proof -
  let ?k = "count_true (and_vec (and_vec (ch_G C ! q) (not_vec (ch_v C))) (ch_s C))"
  have d0: "(2 * int ?k + 2 * int (?k mod 2)) mod 4 = 0" by presburger
  have d2: "(2 * int ?k + 2 * int (1 - ?k mod 2)) mod 4 = 2" by presburger
  have same: "project_Z q (?k mod 2) C = Inr C"
    unfolding project_Z_equal_case[OF assms] d0 by (simp add: csqrt2_sq)
  have zero: "project_Z q (1 - ?k mod 2) C = Inr (C\<lparr> ch_omega := 0 \<rparr>)"
    unfolding project_Z_equal_case[OF assms] d2 by simp
  have amp: "inner_product_of_state_and_x (C\<lparr> ch_omega := 0 \<rparr>) x = 0" for x
    by (simp add: inner_product_of_state_and_x_def Let_def split_def)
  have "to_state_vector (C\<lparr> ch_omega := 0 \<rparr>) = replicate (2 ^ ch_n C) 0"
    by (intro nth_equalityI) (simp_all add: to_state_vector_def amp)
  then show ?thesis using same zero by simp
qed

theorem project_Z_deterministic_witness:
  "wf_ch ch_zero \<and> 0 < ch_n ch_zero \<and>
   project_Z 0 0 ch_zero = Inr ch_zero \<and> project_Z 0 1 ch_zero = Inr (ch_zero\<lparr> ch_omega := 0 \<rparr>) \<and>
   to_state_vector (ch_zero\<lparr> ch_omega := 0 \<rparr>) = [0, 0]"
proof -
  have h1: "wf_ch ch_zero" by (simp add: wf_ch_def ch_zero_def)
  have h2: "0 < ch_n ch_zero" by (simp add: ch_zero_def)
  have h3: "list_all (\<lambda>b. \<not> b) (and_vec (ch_G ch_zero ! 0) (ch_v ch_zero))"
    by (simp add: ch_zero_def and_vec_def)
  have k: "count_true (and_vec (and_vec (ch_G ch_zero ! 0) (not_vec (ch_v ch_zero))) (ch_s ch_zero)) = 0"
    by (simp add: ch_zero_def and_vec_def not_vec_def count_true_def)
  have n: "ch_n ch_zero = 1" by (simp add: ch_zero_def)
  show ?thesis
    using project_Z_deterministic[OF h1 h2 h3] h1 h2 unfolding k n by (simp add: replicate_2)
qed


section \<open>The tableau and the CH form after a Y gate\<close>

lemma omega_hsy:
  "(1 + \<i> ^ 3) * (1 + \<i> ^ 3) * \<i> / (complex_of_real (sqrt 2) * complex_of_real (sqrt 2)) = 1"
  by (simp add: csqrt2_sq power3_eq_cube algebra_simps)

lemma run_hsy:
  "bind (clifford_state_init [0 \<mapsto> 0] (Suc 0) 0) (\<lambda>st. bind (apply_unitary opH st)
          (\<lambda>st. bind (apply_unitary opS st) (apply_unitary opY))) = Inr st_minus_y"
  by (simp add: clifford_state_init_def tableau_init_def ch_init_def bits.simps apply_unitary_def
      apply1_def qubit_index_def opH_def opS_def opY_def tab_H_def tab_S_def tab_Y_def ch_H_def
      ch_S_def ch_Y_def ch_Z_def ch_X_def update_sum_def H_decompose_def ch_S_right_def
      st_minus_y_def tab_minus_y_def ch_plus_i_def omega_hsy eval_simps)

lemma stab_hsy: "stabilizers tab_minus_y = [(- 1, [PY])]"
  by (simp add: stabilizers_def row_to_dense_pauli_def tab_minus_y_def upt_conv_Cons)

lemma i_pow5: "\<i> ^ 5 = \<i>"
  by (simp add: numeral_eq_Suc)

lemma vec_hsy: "to_state_vector ch_plus_i = [1 / sqrt 2, \<i> / sqrt 2]"
  by (simp add: to_state_vector_def inner_product_alt inner_loop_def
      big_endian_int_to_bits_def ch_plus_i_def i_pow5 eval_simps)

lemma pauli_hsy: "apply_pauli_string (- 1, [PY]) [1 / sqrt 2, \<i> / sqrt 2] = [- (1 / sqrt 2), - (\<i> / sqrt 2)]"
  by (simp add: apply_pauli_string_def big_endian_int_to_bits_def bits_to_int_def eval_simps)

lemma pauli_hsy_plus: "apply_pauli_string (1, [PY]) [1 / sqrt 2, \<i> / sqrt 2] = [1 / sqrt 2, \<i> / sqrt 2]"
  by (simp add: apply_pauli_string_def big_endian_int_to_bits_def bits_to_int_def eval_simps)

text \<open>
  Claim C1 says that every Pauli string of the tableau's \<open>stabilizers()\<close> stabilizes
  the state vector of the CH form, after any gate sequence. After \<open>H\<close>, \<open>S\<close>, \<open>Y\<close> on
  one qubit in \<open>|0>\<close>, applied through \<open>apply_unitary\<close>, the tableau returns \<open>-Y\<close>
  while the CH form holds \<open>(|0> + i|1>)/sqrt 2\<close>, which \<open>+Y\<close> stabilizes and \<open>-Y\<close>
  negates: the tableau's \<open>_Y\<close> flips the sign of a row that has a \<open>Y\<close> at the qubit
  (\<open>xs | zs\<close>), although \<open>Y\<close> commutes with itself.
\<close>

theorem tableau_Y_sign_disagrees:
  "bind (clifford_state_init [0 \<mapsto> 0] 1 0) (\<lambda>st. bind (apply_unitary opH st)
          (\<lambda>st. bind (apply_unitary opS st) (apply_unitary opY))) = Inr st_minus_y \<and>
   stabilizers (tableau st_minus_y) = [(- 1, [PY])] \<and>
   to_state_vector (ch_form st_minus_y) = [1 / sqrt 2, \<i> / sqrt 2] \<and>
   apply_pauli_string (- 1, [PY]) (to_state_vector (ch_form st_minus_y))
     = [- (1 / sqrt 2), - (\<i> / sqrt 2)] \<and>
   \<not> stabilizes (- 1, [PY]) (to_state_vector (ch_form st_minus_y)) \<and>
   stabilizes (1, [PY]) (to_state_vector (ch_form st_minus_y))"
proof -
  have r: "bind (clifford_state_init [0 \<mapsto> 0] 1 0) (\<lambda>st. bind (apply_unitary opH st)
          (\<lambda>st. bind (apply_unitary opS st) (apply_unitary opY))) = Inr st_minus_y"
    using run_hsy by simp
  have t: "stabilizers (tableau st_minus_y) = [(- 1, [PY])]"
    by (simp add: st_minus_y_def stab_hsy)
  have v: "to_state_vector (ch_form st_minus_y) = [1 / sqrt 2, \<i> / sqrt 2]"
    unfolding st_minus_y_def by (simp only: clifford_state.simps vec_hsy)
  have a: "apply_pauli_string (- 1, [PY]) (to_state_vector (ch_form st_minus_y))
             = [- (1 / sqrt 2), - (\<i> / sqrt 2)]"
    unfolding v by (rule pauli_hsy)
  have "(1 / complex_of_real (sqrt 2)) \<noteq> - (1 / complex_of_real (sqrt 2))" by simp
  then have b: "\<not> stabilizes (- 1, [PY]) (to_state_vector (ch_form st_minus_y))"
    unfolding stabilizes_def a unfolding v by simp
  have c: "stabilizes (1, [PY]) (to_state_vector (ch_form st_minus_y))"
    unfolding stabilizes_def v by (rule pauli_hsy_plus)
  show ?thesis using r t v a b c by (intro conjI)
qed


end
